theory Spec2Isabelle
  imports Main
begin

section \<open>Constants (constants/index.ts)\<close>

definition REQUESTS_PER_SECOND :: nat where
  "REQUESTS_PER_SECOND = 20"

definition REQUESTS_PER_2_MINUTES :: nat where
  "REQUESTS_PER_2_MINUTES = 100"

definition RETRY_DELAY_MS :: int where
  "RETRY_DELAY_MS = 1000"

definition MAX_RETRIES :: int where
  "MAX_RETRIES = 3"

section \<open>Rate limiter (services/rate-limiter.ts)\<close>

text \<open>
  The module-level \<^verbatim>\<open>state\<close> object is a record that every function takes and returns.
  A queued request is its \<^verbatim>\<open>resolve\<close> callback and its priority; the callback is
  represented by a number identifying the waiting caller. Every reading of
  \<^verbatim>\<open>Date.now()\<close> is an explicit argument \<open>now\<close> (milliseconds); one synchronous run of
  the code sees one reading.
\<close>

record QueuedRequest =
  resolve :: nat
  priority :: int

record RateLimitState =
  requestsThisSecond :: nat
  requestsThis2Minutes :: nat
  lastSecondReset :: int
  last2MinutesReset :: int
  queue :: "QueuedRequest list"
  processing :: bool

definition initialState :: "int \<Rightarrow> RateLimitState" where
  "initialState t0 =
     \<lparr>requestsThisSecond = 0, requestsThis2Minutes = 0,
      lastSecondReset = t0, last2MinutesReset = t0,
      queue = [], processing = False\<rparr>"

definition resetCountersIfNeeded :: "int \<Rightarrow> RateLimitState \<Rightarrow> RateLimitState" where
  "resetCountersIfNeeded now s =
     (let s1 = (if now - lastSecondReset s \<ge> 1000
                then s\<lparr>requestsThisSecond := 0, lastSecondReset := now\<rparr>
                else s)
      in (if now - last2MinutesReset s1 \<ge> 120000
          then s1\<lparr>requestsThis2Minutes := 0, last2MinutesReset := now\<rparr>
          else s1))"

definition canMakeRequest :: "int \<Rightarrow> RateLimitState \<Rightarrow> bool \<times> RateLimitState" where
  "canMakeRequest now s =
     (let s1 = resetCountersIfNeeded now s
      in (requestsThisSecond s1 < REQUESTS_PER_SECOND \<and>
          requestsThis2Minutes s1 < REQUESTS_PER_2_MINUTES, s1))"

definition recordRequest :: "RateLimitState \<Rightarrow> RateLimitState" where
  "recordRequest s =
     s\<lparr>requestsThisSecond := requestsThisSecond s + 1,
       requestsThis2Minutes := requestsThis2Minutes s + 1\<rparr>"

definition getWaitTime :: "int \<Rightarrow> RateLimitState \<Rightarrow> int \<times> RateLimitState" where
  "getWaitTime now s =
     (let s1 = resetCountersIfNeeded now s
      in if requestsThisSecond s1 \<ge> REQUESTS_PER_SECOND
         then (1000 - (now - lastSecondReset s1), s1)
         else if requestsThis2Minutes s1 \<ge> REQUESTS_PER_2_MINUTES
         then (120000 - (now - last2MinutesReset s1), s1)
         else (0, s1))"

text \<open>
  What the limiter lets through is observed as a list of admissions: a caller admitted on
  the fast path of \<^verbatim>\<open>waitForRateLimit\<close>, or a queued request resolved by the servicer,
  recorded with the contents of the wait queue at that moment.
\<close>

datatype admitted =
    Direct nat
  | Dequeued QueuedRequest "QueuedRequest list"

fun admittedId :: "admitted \<Rightarrow> nat" where
  "admittedId (Direct r) = r"
| "admittedId (Dequeued q w) = resolve q"

text \<open>
  \<^verbatim>\<open>state.queue.sort((a, b) => b.priority - a.priority)\<close>: the sort of JavaScript arrays
  is stable, and the comparator orders by descending priority; this is the stable
  insertion sort on the key \<open>- priority\<close>.
\<close>

definition sortQueue :: "QueuedRequest list \<Rightarrow> QueuedRequest list" where
  "sortQueue q = sort_key (\<lambda>r. - priority r) q"

text \<open>The body of the loop after the sleep: \<^verbatim>\<open>if (canMakeRequest()) { sort; shift; record; resolve }\<close>.\<close>

definition serviceNext :: "int \<Rightarrow> RateLimitState \<Rightarrow> RateLimitState \<times> admitted list" where
  "serviceNext now s =
     (let (ok, s1) = canMakeRequest now s
      in if ok
         then (case sortQueue (queue s1) of
                 [] \<Rightarrow> (s1\<lparr>queue := []\<rparr>, [])
               | next # rest \<Rightarrow>
                   (recordRequest (s1\<lparr>queue := rest\<rparr>), [Dequeued next (queue s1)]))
         else (s1, []))"

text \<open>
  The \<^verbatim>\<open>while (state.queue.length > 0)\<close> loop of \<^verbatim>\<open>processQueue\<close>, run from its top until
  the servicer either suspends in \<^verbatim>\<open>await sleep(waitTime)\<close> (the flag \<open>processing\<close> stays
  set) or leaves the loop and clears the flag.
\<close>

function processQueueLoop :: "int \<Rightarrow> RateLimitState \<Rightarrow> RateLimitState \<times> admitted list" where
  "processQueueLoop now s =
     (if queue s = [] then (s\<lparr>processing := False\<rparr>, [])
      else if fst (getWaitTime now s) > 0 then (snd (getWaitTime now s), [])
      else (let r = serviceNext now (snd (getWaitTime now s));
                r' = processQueueLoop now (fst r)
            in (fst r', snd r @ snd r')))"
  by pat_completeness auto

lemma getWaitTime_nonpos:
  "\<not> fst (getWaitTime now s) > 0 \<Longrightarrow> fst (canMakeRequest now (snd (getWaitTime now s)))"
  unfolding getWaitTime_def canMakeRequest_def resetCountersIfNeeded_def Let_def
  by (auto split: if_splits)

lemma queue_resetCountersIfNeeded: "queue (resetCountersIfNeeded now s) = queue s"
  by (simp add: resetCountersIfNeeded_def Let_def)

lemma queue_getWaitTime: "queue (snd (getWaitTime now s)) = queue s"
  by (simp add: getWaitTime_def Let_def queue_resetCountersIfNeeded)

lemma length_sortQueue: "length (sortQueue q) = length q"
  by (simp add: sortQueue_def)

lemma serviceNext_shrinks:
  assumes "queue s \<noteq> []" and "fst (canMakeRequest now s)"
  shows "length (queue (fst (serviceNext now s))) < length (queue s)"
proof -
  obtain s1 where c: "canMakeRequest now s = (True, s1)" and q: "queue s1 = queue s"
    using assms(2)
    by (cases "canMakeRequest now s")
       (auto simp: canMakeRequest_def Let_def queue_resetCountersIfNeeded)
  from assms(1) q have "sortQueue (queue s1) \<noteq> []"
    using length_sortQueue [of "queue s1"] by auto
  then obtain x rest where sq: "sortQueue (queue s1) = x # rest"
    by (cases "sortQueue (queue s1)") auto
  then have "length rest < length (queue s)"
    using length_sortQueue [of "queue s1"] q by simp
  then show ?thesis
    by (simp add: serviceNext_def c sq recordRequest_def)
qed

termination processQueueLoop
proof (relation "measure (\<lambda>(now, s). length (queue s))")
  show "wf (measure (\<lambda>(now, s). length (queue s)))" by simp
next
  fix now s x
  assume ne: "queue s \<noteq> []" and w: "\<not> 0 < fst (getWaitTime now s)"
    and x: "x = serviceNext now (snd (getWaitTime now s))"
  have "length (queue (fst (serviceNext now (snd (getWaitTime now s)))))
          < length (queue (snd (getWaitTime now s)))"
    using ne w
    by (intro serviceNext_shrinks) (simp_all add: queue_getWaitTime getWaitTime_nonpos)
  then show "((now, fst x), (now, s)) \<in> measure (\<lambda>(now, s). length (queue s))"
    by (simp add: x queue_getWaitTime)
qed

declare processQueueLoop.simps [simp del]

text \<open>
  \<^verbatim>\<open>processQueue()\<close> as called: it returns at once when a servicer is already running or
  nothing waits, and otherwise sets the flag and enters the loop.
\<close>

definition processQueue :: "int \<Rightarrow> RateLimitState \<Rightarrow> RateLimitState \<times> admitted list" where
  "processQueue now s =
     (if processing s \<or> queue s = [] then (s, [])
      else processQueueLoop now (s\<lparr>processing := True\<rparr>))"

text \<open>
  The servicer resuming after \<^verbatim>\<open>await sleep(waitTime)\<close> at time \<open>now\<close>: the rest of the
  current iteration, then the loop from its top.
\<close>

definition resumeProcessQueue :: "int \<Rightarrow> RateLimitState \<Rightarrow> RateLimitState \<times> admitted list" where
  "resumeProcessQueue now s =
     (let r = serviceNext now s;
          r' = processQueueLoop now (fst r)
      in (fst r', snd r @ snd r'))"

text \<open>
  \<^verbatim>\<open>waitForRateLimit(priority)\<close> called at time \<open>now\<close> by the caller whose continuation is
  \<open>rid\<close>: admitted at once when there is headroom, queued otherwise.
\<close>

definition waitForRateLimit ::
  "int \<Rightarrow> int \<Rightarrow> nat \<Rightarrow> RateLimitState \<Rightarrow> RateLimitState \<times> admitted list" where
  "waitForRateLimit now prio rid s =
     (let (ok, s1) = canMakeRequest now s
      in if ok then (recordRequest s1, [Direct rid])
         else processQueue now
                (s1\<lparr>queue := queue s1 @ [\<lparr>resolve = rid, priority = prio\<rparr>]\<rparr>))"

record RateLimitStatus =
  statusRequestsThisSecond :: nat
  statusRequestsThis2Minutes :: nat
  queueLength :: nat
  statusCanMakeRequest :: bool

definition getRateLimitStatus :: "int \<Rightarrow> RateLimitState \<Rightarrow> RateLimitStatus \<times> RateLimitState" where
  "getRateLimitStatus now s =
     (let s1 = resetCountersIfNeeded now s;
          (ok, s2) = canMakeRequest now s1
      in (\<lparr>statusRequestsThisSecond = requestsThisSecond s1,
           statusRequestsThis2Minutes = requestsThis2Minutes s1,
           queueLength = length (queue s1),
           statusCanMakeRequest = ok\<rparr>, s2))"

subsection \<open>Runs of the limiter\<close>

text \<open>
  The limiter is driven by two kinds of event, each one synchronous run of the code: a
  caller invoking \<^verbatim>\<open>waitForRateLimit\<close>, and the timer of a sleeping servicer firing. The
  callers are numbered in the order of their calls. A timer event without a sleeping
  servicer does nothing. The log of a run lists every admission with the time of the
  event and the start of the short window it was counted in.
\<close>

datatype event =
    Acquire int int
  | Wake int

fun eventTime :: "event \<Rightarrow> int" where
  "eventTime (Acquire now prio) = now"
| "eventTime (Wake now) = now"

fun step :: "nat \<Rightarrow> event \<Rightarrow> RateLimitState \<Rightarrow> RateLimitState \<times> admitted list" where
  "step n (Acquire now prio) s = waitForRateLimit now prio n s"
| "step n (Wake now) s = (if processing s then resumeProcessQueue now s else (s, []))"

record admission =
  who :: admitted
  at :: int
  window :: int

fun run :: "nat \<Rightarrow> event list \<Rightarrow> RateLimitState \<Rightarrow> admission list" where
  "run n [] s = []"
| "run n (e # es) s =
     (let r = step n e s
      in map (\<lambda>a. \<lparr>who = a, at = eventTime e, window = lastSecondReset (fst r)\<rparr>) (snd r)
         @ run (Suc n) es (fst r))"

subsection \<open>Accounting of the short window\<close>

text \<open>
  \<open>counted now k s s'\<close>: a synchronous run at time \<open>now\<close> that admitted \<open>k\<close> requests took
  the short window of \<open>s\<close> to that of \<open>s'\<close>, either without touching it, or by the reset
  rule followed by \<open>k\<close> units, never counting past the limit.
\<close>

definition counted :: "int \<Rightarrow> nat \<Rightarrow> RateLimitState \<Rightarrow> RateLimitState \<Rightarrow> bool" where
  "counted now k s s' \<longleftrightarrow>
     (k = 0 \<and> lastSecondReset s' = lastSecondReset s \<and> requestsThisSecond s' = requestsThisSecond s) \<or>
     (lastSecondReset s' = lastSecondReset (resetCountersIfNeeded now s) \<and>
      requestsThisSecond s' = requestsThisSecond (resetCountersIfNeeded now s) + k \<and>
      (k > 0 \<longrightarrow> requestsThisSecond s' \<le> REQUESTS_PER_SECOND))"

lemma reset_short:
  "(now - lastSecondReset s < 1000 \<and>
    lastSecondReset (resetCountersIfNeeded now s) = lastSecondReset s \<and>
    requestsThisSecond (resetCountersIfNeeded now s) = requestsThisSecond s) \<or>
   (now - lastSecondReset s \<ge> 1000 \<and>
    lastSecondReset (resetCountersIfNeeded now s) = now \<and>
    requestsThisSecond (resetCountersIfNeeded now s) = 0)"
  by (simp add: resetCountersIfNeeded_def Let_def)

lemma reset_short_cong:
  assumes "lastSecondReset s = lastSecondReset t" "requestsThisSecond s = requestsThisSecond t"
  shows "lastSecondReset (resetCountersIfNeeded now s) = lastSecondReset (resetCountersIfNeeded now t) \<and>
         requestsThisSecond (resetCountersIfNeeded now s) = requestsThisSecond (resetCountersIfNeeded now t)"
  using assms by (simp add: resetCountersIfNeeded_def Let_def)

lemma reset_short_fresh:
  assumes "lastSecondReset t = lastSecondReset (resetCountersIfNeeded now s)"
  shows "lastSecondReset (resetCountersIfNeeded now t) = lastSecondReset t \<and>
         requestsThisSecond (resetCountersIfNeeded now t) = requestsThisSecond t"
proof -
  have "now - lastSecondReset t < 1000"
    using reset_short [of now s] assms by auto
  then show ?thesis
    using reset_short [of now t] by auto
qed

lemma counted_trans:
  assumes "counted now k1 s s1" and "counted now k2 s1 s2"
  shows "counted now (k1 + k2) s s2"
proof -
  consider (id) "k1 = 0" "lastSecondReset s1 = lastSecondReset s" "requestsThisSecond s1 = requestsThisSecond s"
    | (rs) "lastSecondReset s1 = lastSecondReset (resetCountersIfNeeded now s)"
        "requestsThisSecond s1 = requestsThisSecond (resetCountersIfNeeded now s) + k1"
        "k1 > 0 \<longrightarrow> requestsThisSecond s1 \<le> REQUESTS_PER_SECOND"
    using assms(1) unfolding counted_def by blast
  then show ?thesis
  proof cases
    case id
    then show ?thesis
      using assms(2) reset_short_cong [of s1 s now] unfolding counted_def by auto
  next
    case rs
    note f = reset_short_fresh [OF rs(1)]
    from assms(2) show ?thesis
      unfolding counted_def using rs f by auto
  qed
qed

lemma counted_refl: "counted now 0 s s"
  by (simp add: counted_def)

lemma counted_reset: "counted now 0 s (resetCountersIfNeeded now s)"
  by (simp add: counted_def)

lemma counted_eq:
  "lastSecondReset s' = lastSecondReset t \<Longrightarrow> requestsThisSecond s' = requestsThisSecond t \<Longrightarrow>
   counted now k s t \<Longrightarrow> counted now k s s'"
  by (simp add: counted_def)

lemma serviceNext_counted:
  "counted now (length (snd (serviceNext now s))) s (fst (serviceNext now s))"
  by (auto simp: serviceNext_def canMakeRequest_def Let_def counted_def recordRequest_def
      split: list.splits)

lemma getWaitTime_counted: "counted now 0 s (snd (getWaitTime now s))"
  by (simp add: getWaitTime_def Let_def counted_def)

lemma processQueueLoop_counted:
  "counted now (length (snd (processQueueLoop now s))) s (fst (processQueueLoop now s))"
proof (induction now s rule: processQueueLoop.induct)
  case (1 now s)
  show ?case
  proof (cases "queue s = []")
    case True
    then show ?thesis
      by (simp add: processQueueLoop.simps [of now s] counted_def)
  next
    case ne: False
    show ?thesis
    proof (cases "fst (getWaitTime now s) > 0")
      case True
      then show ?thesis
        using ne getWaitTime_counted [of now s]
        by (simp add: processQueueLoop.simps [of now s])
    next
      case False
      define r where "r = serviceNext now (snd (getWaitTime now s))"
      have ih: "counted now (length (snd (processQueueLoop now (fst r)))) (fst r)
                  (fst (processQueueLoop now (fst r)))"
        using "1.IH" [OF ne False r_def] .
      have a: "counted now (length (snd r)) (snd (getWaitTime now s)) (fst r)"
        unfolding r_def by (rule serviceNext_counted)
      have "counted now (0 + (length (snd r) + length (snd (processQueueLoop now (fst r))))) s
              (fst (processQueueLoop now (fst r)))"
        by (rule counted_trans [OF getWaitTime_counted counted_trans [OF a ih]])
      then show ?thesis
        using ne False
        by (simp add: processQueueLoop.simps [of now s] Let_def r_def [symmetric])
    qed
  qed
qed

lemma resumeProcessQueue_counted:
  "counted now (length (snd (resumeProcessQueue now s))) s (fst (resumeProcessQueue now s))"
  using counted_trans [OF serviceNext_counted processQueueLoop_counted, of now s]
  by (simp add: resumeProcessQueue_def Let_def)

lemma counted_upd:
  "counted now k (s\<lparr>processing := b\<rparr>) s' = counted now k s s'"
  "counted now k (s\<lparr>queue := q\<rparr>) s' = counted now k s s'"
  by (simp_all add: counted_def resetCountersIfNeeded_def Let_def)

lemma processQueue_counted:
  "counted now (length (snd (processQueue now s))) s (fst (processQueue now s))"
  using processQueueLoop_counted [of now "s\<lparr>processing := True\<rparr>"]
  by (simp add: processQueue_def counted_refl counted_upd)

lemma waitForRateLimit_counted:
  "counted now (length (snd (waitForRateLimit now prio rid s))) s
     (fst (waitForRateLimit now prio rid s))"
proof (cases "fst (canMakeRequest now s)")
  case True
  then show ?thesis
    by (auto simp: waitForRateLimit_def canMakeRequest_def Let_def counted_def recordRequest_def)
next
  case False
  define s1 where "s1 = (resetCountersIfNeeded now s)\<lparr>queue := queue (resetCountersIfNeeded now s) @ [\<lparr>resolve = rid, priority = prio\<rparr>]\<rparr>"
  have c: "canMakeRequest now s = (False, resetCountersIfNeeded now s)"
    using False by (simp add: canMakeRequest_def Let_def)
  have w: "waitForRateLimit now prio rid s = processQueue now s1"
    by (simp add: waitForRateLimit_def c s1_def)
  have "counted now 0 s s1"
    by (simp add: s1_def counted_def)
  from counted_trans [OF this processQueue_counted [of now s1]] show ?thesis
    by (simp add: w)
qed

lemma step_counted:
  "counted (eventTime e) (length (snd (step n e s))) s (fst (step n e s))"
  by (cases e) (simp_all add: waitForRateLimit_counted resumeProcessQueue_counted counted_refl)

definition inWindow :: "int \<Rightarrow> admission list \<Rightarrow> nat" where
  "inWindow w log = length (filter (\<lambda>a. window a = w) log)"

lemma inWindow_append: "inWindow w (xs @ ys) = inWindow w xs + inWindow w ys"
  by (simp add: inWindow_def)

lemma inWindow_map:
  "inWindow w (map (\<lambda>a. \<lparr>who = a, at = t, window = v\<rparr>) xs) = (if v = w then length xs else 0)"
  by (induction xs) (simp_all add: inWindow_def)

lemma run_inWindow:
  "requestsThisSecond s \<le> REQUESTS_PER_SECOND \<Longrightarrow>
   inWindow w (run n evs s)
     \<le> (if w = lastSecondReset s then REQUESTS_PER_SECOND - requestsThisSecond s
         else if lastSecondReset s < w then REQUESTS_PER_SECOND else 0)"
proof (induction evs arbitrary: n s)
  case Nil
  then show ?case by (simp add: inWindow_def)
next
  case (Cons e es)
  define s' where "s' = fst (step n e s)"
  define k where "k = length (snd (step n e s))"
  have c: "counted (eventTime e) k s s'"
    unfolding s'_def k_def by (rule step_counted)
  have split: "inWindow w (run n (e # es) s)
                 = (if lastSecondReset s' = w then k else 0) + inWindow w (run (Suc n) es s')"
    by (simp add: Let_def inWindow_append inWindow_map s'_def k_def)
  consider (same) "lastSecondReset s' = lastSecondReset s" "requestsThisSecond s' = requestsThisSecond s + k"
      "requestsThisSecond s' \<le> REQUESTS_PER_SECOND"
    | (later) "lastSecondReset s < lastSecondReset s'" "requestsThisSecond s' = k"
      "requestsThisSecond s' \<le> REQUESTS_PER_SECOND"
    using c reset_short [of "eventTime e" s] Cons.prems unfolding counted_def
    by (cases "k = 0") auto
  then show ?case
  proof cases
    case same
    then show ?thesis
      using Cons.IH [OF same(3), of "Suc n"] unfolding split by (auto split: if_splits)
  next
    case later
    then show ?thesis
      using Cons.IH [OF later(3), of "Suc n"] unfolding split by (auto split: if_splits)
  qed
qed

lemma step_beyond_limit:
  assumes "requestsThisSecond s \<ge> REQUESTS_PER_SECOND" and "snd (step n e s) \<noteq> []"
  shows "eventTime e - lastSecondReset s \<ge> 1000"
proof -
  define k where "k = length (snd (step n e s))"
  have "k > 0"
    using assms(2) by (simp add: k_def)
  moreover have "counted (eventTime e) k s (fst (step n e s))"
    unfolding k_def by (rule step_counted)
  ultimately show ?thesis
    using reset_short [of "eventTime e" s] assms(1)
    unfolding counted_def by auto
qed

lemma step_at_in_window:
  assumes "lastSecondReset s \<le> eventTime e"
  shows "lastSecondReset (fst (step n e s)) \<le> eventTime e \<and>
         (snd (step n e s) \<noteq> [] \<longrightarrow> eventTime e < lastSecondReset (fst (step n e s)) + 1000)"
proof -
  define k where "k = length (snd (step n e s))"
  have "snd (step n e s) \<noteq> [] \<Longrightarrow> k > 0"
    by (simp add: k_def)
  moreover have "counted (eventTime e) k s (fst (step n e s))"
    unfolding k_def by (rule step_counted)
  ultimately show ?thesis
    using reset_short [of "eventTime e" s] assms
    unfolding counted_def by auto
qed

lemma run_at_in_window:
  assumes "sorted (map eventTime evs)" and "\<forall>e \<in> set evs. lastSecondReset s \<le> eventTime e"
    and "a \<in> set (run n evs s)"
  shows "window a \<le> at a \<and> at a < window a + 1000"
  using assms
proof (induction evs arbitrary: n s)
  case Nil
  then show ?case by simp
next
  case (Cons e es)
  have le: "lastSecondReset s \<le> eventTime e"
    using Cons.prems(2) by simp
  note st = step_at_in_window [OF le, of n]
  from Cons.prems(3) consider
      (here) "a \<in> set (map (\<lambda>x. \<lparr>who = x, at = eventTime e, window = lastSecondReset (fst (step n e s))\<rparr>)
                          (snd (step n e s)))"
    | (rest) "a \<in> set (run (Suc n) es (fst (step n e s)))"
    by (auto simp: Let_def)
  then show ?case
  proof cases
    case here
    then have "snd (step n e s) \<noteq> []" "at a = eventTime e"
      "window a = lastSecondReset (fst (step n e s))"
      by auto
    then show ?thesis using st by simp
  next
    case rest
    have "\<forall>e' \<in> set es. lastSecondReset (fst (step n e s)) \<le> eventTime e'"
      using Cons.prems(1) st by fastforce
    moreover have "sorted (map eventTime es)"
      using Cons.prems(1) by simp
    ultimately show ?thesis
      using Cons.IH [OF _ _ rest] by blast
  qed
qed

text \<open>
  Two scenarios used below. \<open>burst\<close>: twenty calls at time 0 use up the short window, three
  more calls (priorities 5, 7, 5) are queued, and the servicer wakes at time 1000.
  \<open>busyState\<close>: the short window was used up at time 0 and one request of priority 5 waits.
\<close>

definition burst :: "event list" where
  "burst = replicate 20 (Acquire 0 0) @ [Acquire 0 5, Acquire 0 7, Acquire 0 5, Wake 1000]"

definition busyState :: RateLimitState where
  "busyState =
     \<lparr>requestsThisSecond = 20, requestsThis2Minutes = 20,
      lastSecondReset = 0, last2MinutesReset = 0,
      queue = [\<lparr>resolve = 20, priority = 5\<rparr>], processing = True\<rparr>"

text \<open>
  Claim C2. In every run of the limiter from its initial state, whatever the calls, their
  priorities and the clock readings, at most \<open>REQUESTS_PER_SECOND\<close> (20) admissions are
  counted in any one short window (identified by its start \<open>w\<close>). Once the counter of the
  current window has reached the limit, an event admits a request only if its clock
  reading is at least 1000 ms past the start of that window, that is, only after the
  window has reset. When the clock never runs backwards, every admission lies within
  1000 ms after the start of the window it is counted in.
\<close>

theorem short_window_limit:
  "inWindow w (run n evs (initialState t0)) \<le> REQUESTS_PER_SECOND \<and>
   (REQUESTS_PER_SECOND \<le> requestsThisSecond s \<and> snd (step n e s) \<noteq> []
      \<longrightarrow> 1000 \<le> eventTime e - lastSecondReset s) \<and>
   (sorted (map eventTime evs) \<and> (\<forall>e' \<in> set evs. t0 \<le> eventTime e') \<and>
    a \<in> set (run n evs (initialState t0))
      \<longrightarrow> window a \<le> at a \<and> at a < window a + 1000)"
proof -
  have i: "requestsThisSecond (initialState t0) \<le> REQUESTS_PER_SECOND"
    by (simp add: initialState_def)
  have l: "lastSecondReset (initialState t0) = t0"
    by (simp add: initialState_def)
  have "inWindow w (run n evs (initialState t0)) \<le> REQUESTS_PER_SECOND"
    using run_inWindow [OF i, of w n evs] by (simp split: if_splits)
  moreover have "REQUESTS_PER_SECOND \<le> requestsThisSecond s \<and> snd (step n e s) \<noteq> []
      \<longrightarrow> 1000 \<le> eventTime e - lastSecondReset s"
    using step_beyond_limit [of s n e] by blast
  moreover have "sorted (map eventTime evs) \<and> (\<forall>e' \<in> set evs. t0 \<le> eventTime e') \<and>
    a \<in> set (run n evs (initialState t0))
      \<longrightarrow> window a \<le> at a \<and> at a < window a + 1000"
    using run_at_in_window [of evs "initialState t0" a n] l by simp
  ultimately show ?thesis by blast
qed

theorem short_window_limit_witness:
  "inWindow 0 (run 0 burst (initialState 0)) = REQUESTS_PER_SECOND \<and>
   inWindow 1000 (run 0 burst (initialState 0)) \<le> REQUESTS_PER_SECOND \<and>
   REQUESTS_PER_SECOND \<le> requestsThisSecond busyState \<and>
   snd (step 21 (Wake 1000) busyState) \<noteq> [] \<and>
   1000 \<le> eventTime (Wake 1000) - lastSecondReset busyState \<and>
   sorted (map eventTime burst) \<and>
   list_all (\<lambda>e'. 0 \<le> eventTime e') burst \<and>
   \<lparr>who = Direct 3, at = 0, window = 0\<rparr> \<in> set (run 0 burst (initialState 0)) \<and>
   window \<lparr>who = Direct 3, at = 0, window = 0\<rparr> \<le> at \<lparr>who = Direct 3, at = 0, window = 0\<rparr> \<and>
   at \<lparr>who = Direct 3, at = 0, window = 0\<rparr> < window \<lparr>who = Direct 3, at = 0, window = 0\<rparr> + 1000"
proof -
  have h1: "REQUESTS_PER_SECOND \<le> requestsThisSecond busyState"
    by (simp add: busyState_def REQUESTS_PER_SECOND_def)
  have h2: "snd (step 21 (Wake 1000) busyState) \<noteq> []"
    by code_simp
  have h3: "sorted (map eventTime burst)"
    by code_simp
  have h4: "list_all (\<lambda>e'. 0 \<le> eventTime e') burst"
    by code_simp
  have h5: "\<lparr>who = Direct 3, at = 0, window = 0\<rparr> \<in> set (run 0 burst (initialState 0))"
    by code_simp
  have h6: "inWindow 0 (run 0 burst (initialState 0)) = REQUESTS_PER_SECOND"
    by code_simp
  have h4': "\<forall>e' \<in> set burst. 0 \<le> eventTime e'"
    using h4 by (simp add: list_all_iff)
  show ?thesis
    using short_window_limit [of 1000 0 burst 0 busyState "Wake 1000"
        "\<lparr>who = Direct 3, at = 0, window = 0\<rparr>"]
      h1 h2 h3 h4 h4' h5 h6
    by simp
qed

subsection \<open>Order of service\<close>

text \<open>
  \<open>bestOf r waiting\<close>: request \<open>r\<close> waits, no waiting request has a higher priority, and
  among those of its priority none called earlier. \<open>queueInv\<close> is what the queue keeps
  between events: requests of equal priority stand in the order of their calls.
\<close>

definition bestOf :: "QueuedRequest \<Rightarrow> QueuedRequest list \<Rightarrow> bool" where
  "bestOf r waiting \<longleftrightarrow>
     r \<in> set waiting \<and>
     (\<forall>e \<in> set waiting. priority e \<le> priority r \<and>
        (priority e = priority r \<longrightarrow> resolve r \<le> resolve e))"

fun wellChosen :: "admitted \<Rightarrow> bool" where
  "wellChosen (Direct r) = True"
| "wellChosen (Dequeued r waiting) = bestOf r waiting"

definition arrivalOrder :: "QueuedRequest \<Rightarrow> QueuedRequest \<Rightarrow> bool" where
  "arrivalOrder a b \<longleftrightarrow> (priority a = priority b \<longrightarrow> resolve a < resolve b)"

definition queueInv :: "nat \<Rightarrow> QueuedRequest list \<Rightarrow> bool" where
  "queueInv n q \<longleftrightarrow> (\<forall>e \<in> set q. resolve e < n) \<and> sorted_wrt arrivalOrder q"

lemma insort_key_arrivalOrder:
  assumes "sorted_wrt arrivalOrder ys" and "\<forall>y \<in> set ys. arrivalOrder x y"
  shows "sorted_wrt arrivalOrder (insort_key (\<lambda>r. - priority r) x ys)"
  using assms
proof (induction ys)
  case Nil
  then show ?case by simp
next
  case (Cons y ys)
  show ?case
  proof (cases "- priority x \<le> - priority y")
    case True
    then show ?thesis using Cons.prems by simp
  next
    case False
    then have "arrivalOrder y x"
      by (simp add: arrivalOrder_def)
    then show ?thesis
      using False Cons by (auto simp: set_insort_key)
  qed
qed

lemma sortQueue_arrivalOrder:
  "sorted_wrt arrivalOrder q \<Longrightarrow> sorted_wrt arrivalOrder (sortQueue q)"
  unfolding sortQueue_def
proof (induction q)
  case Nil
  then show ?case by simp
next
  case (Cons x xs)
  then show ?case
    by (simp add: insort_key_arrivalOrder)
qed

lemma set_sortQueue: "set (sortQueue q) = set q"
  by (simp add: sortQueue_def)

lemma sortQueue_head_best:
  assumes "sorted_wrt arrivalOrder q" and "sortQueue q = r # rest"
  shows "bestOf r q \<and> sorted_wrt arrivalOrder rest \<and> set rest \<subseteq> set q"
proof -
  have "sorted (map (\<lambda>r. - priority r) (sortQueue q))"
    unfolding sortQueue_def by (rule sorted_sort_key)
  then have so: "sorted (map (\<lambda>r. - priority r) (r # rest))"
    by (simp only: assms(2))
  have ao: "sorted_wrt arrivalOrder (r # rest)"
    using sortQueue_arrivalOrder [OF assms(1)] assms(2) by simp
  have st: "set q = insert r (set rest)"
    using set_sortQueue [of q] assms(2) by simp
  have "\<forall>e \<in> set rest. priority e \<le> priority r \<and> (priority e = priority r \<longrightarrow> resolve r \<le> resolve e)"
    using so ao by (auto simp: arrivalOrder_def)
  then show ?thesis
    using ao st by (auto simp: bestOf_def)
qed

lemma serviceNext_queueInv:
  assumes "queueInv n (queue s)"
  shows "queueInv n (queue (fst (serviceNext now s))) \<and>
         (\<forall>x \<in> set (snd (serviceNext now s)). wellChosen x)"
proof (cases "fst (canMakeRequest now s)")
  case False
  then have "canMakeRequest now s = (False, resetCountersIfNeeded now s)"
    by (simp add: canMakeRequest_def Let_def)
  then have "serviceNext now s = (resetCountersIfNeeded now s, [])"
    by (simp add: serviceNext_def)
  then show ?thesis
    using assms by (simp add: queue_resetCountersIfNeeded)
next
  case True
  then have c: "canMakeRequest now s = (True, resetCountersIfNeeded now s)"
    by (simp add: canMakeRequest_def Let_def)
  show ?thesis
  proof (cases "sortQueue (queue s)")
    case Nil
    then show ?thesis
      by (simp add: serviceNext_def c queue_resetCountersIfNeeded queueInv_def)
  next
    case (Cons r rest)
    have ao: "sorted_wrt arrivalOrder (queue s)"
      using assms by (simp add: queueInv_def)
    note b = sortQueue_head_best [OF ao Cons]
    have "queueInv n rest"
      using b assms by (auto simp: queueInv_def)
    then show ?thesis
      using b by (simp add: serviceNext_def c queue_resetCountersIfNeeded Cons recordRequest_def)
  qed
qed

lemma processQueueLoop_queueInv:
  "queueInv n (queue s) \<Longrightarrow>
   queueInv n (queue (fst (processQueueLoop now s))) \<and>
   (\<forall>x \<in> set (snd (processQueueLoop now s)). wellChosen x)"
proof (induction now s rule: processQueueLoop.induct)
  case (1 now s)
  show ?case
  proof (cases "queue s = []")
    case True
    then show ?thesis
      using "1.prems" by (simp add: processQueueLoop.simps [of now s])
  next
    case ne: False
    show ?thesis
    proof (cases "fst (getWaitTime now s) > 0")
      case True
      then show ?thesis
        using ne "1.prems" by (simp add: processQueueLoop.simps [of now s] queue_getWaitTime)
    next
      case False
      define r where "r = serviceNext now (snd (getWaitTime now s))"
      have a: "queueInv n (queue (fst r)) \<and> (\<forall>x \<in> set (snd r). wellChosen x)"
        unfolding r_def using "1.prems"
        by (intro serviceNext_queueInv) (simp add: queue_getWaitTime)
      then have "queueInv n (queue (fst (processQueueLoop now (fst r)))) \<and>
             (\<forall>x \<in> set (snd (processQueueLoop now (fst r))). wellChosen x)"
        using "1.IH" [OF ne False r_def] by blast
      then show ?thesis
        using ne False a
        by (auto simp: processQueueLoop.simps [of now s] Let_def r_def [symmetric])
    qed
  qed
qed

lemma step_queueInv:
  assumes "queueInv n (queue s)"
  shows "queueInv (Suc n) (queue (fst (step n e s))) \<and>
         (\<forall>x \<in> set (snd (step n e s)). wellChosen x)"
proof -
  have up: "\<And>q. queueInv n q \<Longrightarrow> queueInv (Suc n) q"
    by (auto simp: queueInv_def)
  show ?thesis
  proof (cases e)
    case (Wake now)
    show ?thesis
      using serviceNext_queueInv [OF assms, of now]
        processQueueLoop_queueInv [of n "fst (serviceNext now s)" now] assms up
      by (auto simp: Wake resumeProcessQueue_def Let_def)
  next
    case (Acquire now prio)
    show ?thesis
    proof (cases "fst (canMakeRequest now s)")
      case True
      then have "canMakeRequest now s = (True, resetCountersIfNeeded now s)"
        by (simp add: canMakeRequest_def Let_def)
      then show ?thesis
        using assms up
        by (simp add: Acquire waitForRateLimit_def recordRequest_def queue_resetCountersIfNeeded)
    next
      case False
      define s1 where "s1 = (resetCountersIfNeeded now s)
         \<lparr>queue := queue (resetCountersIfNeeded now s) @ [\<lparr>resolve = n, priority = prio\<rparr>]\<rparr>"
      have c: "canMakeRequest now s = (False, resetCountersIfNeeded now s)"
        using False by (simp add: canMakeRequest_def Let_def)
      have w: "step n e s = processQueue now s1"
        by (simp add: Acquire waitForRateLimit_def c s1_def)
      have q1: "queueInv (Suc n) (queue s1)"
        using assms
        by (auto simp: s1_def queue_resetCountersIfNeeded queueInv_def sorted_wrt_append
            arrivalOrder_def)
      show ?thesis
        using q1 processQueueLoop_queueInv [of "Suc n" "s1\<lparr>processing := True\<rparr>" now]
        by (simp add: w processQueue_def)
    qed
  qed
qed

lemma run_wellChosen:
  "queueInv n (queue s) \<Longrightarrow> a \<in> set (run n evs s) \<Longrightarrow> wellChosen (who a)"
proof (induction evs arbitrary: n s)
  case Nil
  then show ?case by simp
next
  case (Cons e es)
  note st = step_queueInv [OF Cons.prems(1), of e]
  from Cons.prems(2) consider
      (here) "who a \<in> set (snd (step n e s))"
    | (rest) "a \<in> set (run (Suc n) es (fst (step n e s)))"
    by (auto simp: Let_def)
  then show ?case
  proof cases
    case here
    then show ?thesis using st by blast
  next
    case rest
    then show ?thesis using Cons.IH [of "Suc n" "fst (step n e s)"] st by blast
  qed
qed

text \<open>
  Claim C3. Whenever the servicer resolves a queued request, in any run from the initial
  state, that request is one of those waiting at that moment, none of them has a higher
  priority, and among those of equal priority none called \<^verbatim>\<open>waitForRateLimit\<close> earlier
  (callers are numbered by the order of their calls). The waiting requests include those
  that joined after the resolved one.
\<close>

theorem dequeue_respects_priority:
  assumes "a \<in> set (run 0 evs (initialState t0))" and "who a = Dequeued r waiting"
  shows "r \<in> set waiting \<and>
         (\<forall>e \<in> set waiting. priority e \<le> priority r \<and>
            (priority e = priority r \<longrightarrow> resolve r \<le> resolve e))"
proof -
  have "queueInv 0 (queue (initialState t0))"
    by (simp add: queueInv_def initialState_def)
  from run_wellChosen [OF this assms(1)] assms(2) show ?thesis
    by (simp add: bestOf_def)
qed

definition firstServed :: admission where
  "firstServed =
     \<lparr>who = Dequeued \<lparr>resolve = 21, priority = 7\<rparr>
              [\<lparr>resolve = 20, priority = 5\<rparr>, \<lparr>resolve = 21, priority = 7\<rparr>,
               \<lparr>resolve = 22, priority = 5\<rparr>],
      at = 1000, window = 1000\<rparr>"

definition secondServed :: admission where
  "secondServed =
     \<lparr>who = Dequeued \<lparr>resolve = 20, priority = 5\<rparr>
              [\<lparr>resolve = 20, priority = 5\<rparr>, \<lparr>resolve = 22, priority = 5\<rparr>],
      at = 1000, window = 1000\<rparr>"

theorem dequeue_respects_priority_witness:
  "firstServed \<in> set (run 0 burst (initialState 0)) \<and>
   secondServed \<in> set (run 0 burst (initialState 0)) \<and>
   list_all (\<lambda>e. priority e \<le> 7)
     [\<lparr>resolve = 20, priority = 5\<rparr>, \<lparr>resolve = 21, priority = 7\<rparr>, \<lparr>resolve = 22, priority = 5\<rparr>] \<and>
   list_all (\<lambda>e. priority e \<le> 5 \<and> 20 \<le> resolve e)
     [\<lparr>resolve = 20, priority = 5\<rparr>, \<lparr>resolve = 22, priority = 5\<rparr>]"
proof -
  have h1: "firstServed \<in> set (run 0 burst (initialState 0))"
    by code_simp
  have h2: "secondServed \<in> set (run 0 burst (initialState 0))"
    by code_simp
  have w1: "who firstServed = Dequeued \<lparr>resolve = 21, priority = 7\<rparr>
              [\<lparr>resolve = 20, priority = 5\<rparr>, \<lparr>resolve = 21, priority = 7\<rparr>,
               \<lparr>resolve = 22, priority = 5\<rparr>]"
    by (simp add: firstServed_def)
  have w2: "who secondServed = Dequeued \<lparr>resolve = 20, priority = 5\<rparr>
              [\<lparr>resolve = 20, priority = 5\<rparr>, \<lparr>resolve = 22, priority = 5\<rparr>]"
    by (simp add: secondServed_def)
  show ?thesis
    using dequeue_respects_priority [OF h1 w1] dequeue_respects_priority [OF h2 w2] h1 h2
    by simp
qed

subsection \<open>The fast path of \<^verbatim>\<open>waitForRateLimit\<close>\<close>

text \<open>
  Claim C10. When \<^verbatim>\<open>waitForRateLimit\<close> is called while both windows have headroom, the
  caller is admitted at once and one unit of each window is consumed, whatever the wait
  queue holds: the queue and the servicer flag are left as they were, so the new caller
  passes every request still waiting, also one of higher priority.
\<close>

theorem waitForRateLimit_headroom_admits_at_once:
  assumes "fst (canMakeRequest now s)"
  shows "snd (waitForRateLimit now prio rid s) = [Direct rid] \<and>
         queue (fst (waitForRateLimit now prio rid s)) = queue s \<and>
         processing (fst (waitForRateLimit now prio rid s)) = processing s \<and>
         requestsThisSecond (fst (waitForRateLimit now prio rid s))
           = requestsThisSecond (resetCountersIfNeeded now s) + 1 \<and>
         requestsThis2Minutes (fst (waitForRateLimit now prio rid s))
           = requestsThis2Minutes (resetCountersIfNeeded now s) + 1"
proof -
  have c: "canMakeRequest now s = (True, resetCountersIfNeeded now s)"
    using assms by (simp add: canMakeRequest_def Let_def)
  have w: "waitForRateLimit now prio rid s
             = (recordRequest (resetCountersIfNeeded now s), [Direct rid])"
    by (simp add: waitForRateLimit_def c)
  show ?thesis
    by (simp add: w recordRequest_def resetCountersIfNeeded_def Let_def)
qed

text \<open>
  The short window of \<open>busyState\<close> was used up at time 0 and a request of priority 5 waits;
  a call of priority 0 at time 1000, before the servicer's timer has fired, is admitted
  while the request of priority 5 stays in the queue.
\<close>

theorem waitForRateLimit_headroom_witness:
  "fst (canMakeRequest 1000 busyState) \<and>
   snd (waitForRateLimit 1000 0 21 busyState) = [Direct 21] \<and>
   queue (fst (waitForRateLimit 1000 0 21 busyState)) = [\<lparr>resolve = 20, priority = 5\<rparr>] \<and>
   requestsThisSecond (fst (waitForRateLimit 1000 0 21 busyState)) = 1 \<and>
   requestsThis2Minutes (fst (waitForRateLimit 1000 0 21 busyState)) = 21"
proof -
  have h: "fst (canMakeRequest 1000 busyState)"
    by (simp add: canMakeRequest_def resetCountersIfNeeded_def busyState_def Let_def
        REQUESTS_PER_SECOND_def REQUESTS_PER_2_MINUTES_def)
  have r: "requestsThisSecond (resetCountersIfNeeded 1000 busyState) = 0"
          "requestsThis2Minutes (resetCountersIfNeeded 1000 busyState) = 20"
    by (simp_all add: resetCountersIfNeeded_def busyState_def Let_def)
  have q: "queue busyState = [\<lparr>resolve = 20, priority = 5\<rparr>]"
    by (simp add: busyState_def)
  show ?thesis
    using waitForRateLimit_headroom_admits_at_once [OF h, of 0 21] h r q by simp
qed

section \<open>Retry policy (services/rate-limiter.ts)\<close>

text \<open>
  A thrown value is an \<^verbatim>\<open>Error\<close> with its message. \<^verbatim>\<open>String.prototype.includes\<close> is the
  search for a contiguous substring.
\<close>

datatype jsError = Error (message: string)

fun startsWith :: "string \<Rightarrow> string \<Rightarrow> bool" where
  "startsWith s [] = True"
| "startsWith [] (c # cs) = False"
| "startsWith (x # xs) (c # cs) = (x = c \<and> startsWith xs cs)"

fun includesStr :: "string \<Rightarrow> string \<Rightarrow> bool" where
  "includesStr [] sub = (sub = [])"
| "includesStr (x # xs) sub = (startsWith (x # xs) sub \<or> includesStr xs sub)"

text \<open>
  \<^verbatim>\<open>withRetry(fn, maxRetries, priority)\<close>. The operation \<open>fn\<close> has effects, so it is given by
  the outcome of each of its invocations, numbered from 0: \<open>Inl\<close> a thrown error, \<open>Inr\<close> the
  value returned. \<^verbatim>\<open>waitForRateLimit\<close> only delays and never throws; what \<^verbatim>\<open>withRetry\<close>
  does besides computing its result is recorded as a list of effects: the calls of
  \<^verbatim>\<open>waitForRateLimit\<close>, the invocations of \<open>fn\<close> and the sleeps. The loop variable
  \<open>attempt\<close> counts from 0, and \<open>maxRetries\<close> may be any integer.
\<close>

datatype effect =
    WaitForRateLimit int
  | Call nat
  | Sleep int

fun isCall :: "effect \<Rightarrow> bool" where
  "isCall (Call i) = True"
| "isCall _ = False"

definition isRateLimited :: "jsError \<Rightarrow> bool" where
  "isRateLimited error \<longleftrightarrow>
     includesStr (message error) ''429'' \<or> includesStr (message error) ''Rate limit''"

function withRetryLoop ::
  "(nat \<Rightarrow> jsError + 'a) \<Rightarrow> int \<Rightarrow> int \<Rightarrow> nat \<Rightarrow> jsError option
     \<Rightarrow> (jsError + 'a) \<times> effect list" where
  "withRetryLoop fn maxRetries prio attempt lastError =
     (if int attempt \<le> maxRetries
      then (case fn attempt of
              Inr v \<Rightarrow> (Inr v, [WaitForRateLimit prio, Call attempt])
            | Inl error \<Rightarrow>
                if isRateLimited error
                then (let r = withRetryLoop fn maxRetries prio (attempt + 1) (Some error)
                      in (fst r, [WaitForRateLimit prio, Call attempt,
                                  Sleep (RETRY_DELAY_MS * 2 ^ attempt)] @ snd r))
                else (Inl error, [WaitForRateLimit prio, Call attempt]))
      else (Inl (case lastError of Some e \<Rightarrow> e | None \<Rightarrow> Error ''Max retries exceeded''), []))"
  by pat_completeness auto
termination
  by (relation "measure (\<lambda>(fn, maxRetries, prio, attempt, lastError). nat (maxRetries + 1 - int attempt))")
     auto

declare withRetryLoop.simps [simp del]

definition withRetry :: "(nat \<Rightarrow> jsError + 'a) \<Rightarrow> int \<Rightarrow> int \<Rightarrow> (jsError + 'a) \<times> effect list" where
  "withRetry fn maxRetries prio = withRetryLoop fn maxRetries prio 0 None"

definition attemptEffects :: "int \<Rightarrow> nat \<Rightarrow> effect list" where
  "attemptEffects prio i = [WaitForRateLimit prio, Call i, Sleep (RETRY_DELAY_MS * 2 ^ i)]"

lemma withRetryLoop_success:
  assumes "int K \<le> maxRetries" and "a \<le> K"
    and "\<forall>i. a \<le> i \<and> i < K \<longrightarrow> (\<exists>e. fn i = Inl e \<and> isRateLimited e)"
    and "fn K = Inr v"
  shows "withRetryLoop fn maxRetries prio a le
           = (Inr v, concat (map (attemptEffects prio) [a..<K]) @ [WaitForRateLimit prio, Call K])"
  using assms(2,3)
proof (induction "K - a" arbitrary: a le)
  case 0
  then have "a = K" by simp
  then show ?case
    using assms(1,4) by (simp add: withRetryLoop.simps [of fn maxRetries prio K])
next
  case (Suc d)
  then have lt: "a < K" by simp
  then obtain e where e: "fn a = Inl e" "isRateLimited e"
    using Suc.prems(2) by auto
  have ih: "withRetryLoop fn maxRetries prio (Suc a) (Some e)
              = (Inr v, concat (map (attemptEffects prio) [Suc a..<K]) @ [WaitForRateLimit prio, Call K])"
    using Suc.hyps(2) Suc.prems lt by (intro Suc.hyps(1)) auto
  have "int a \<le> maxRetries"
    using lt assms(1) by simp
  then show ?case
    using e ih lt
    by (simp add: withRetryLoop.simps [of fn maxRetries prio a] upt_conv_Cons attemptEffects_def)
qed

lemma withRetryLoop_exhausted:
  assumes "int a \<le> maxRetries + 1"
    and "\<forall>i. a \<le> i \<and> int i \<le> maxRetries \<longrightarrow> fn i = Inl (errs i) \<and> isRateLimited (errs i)"
    and "le = (if a = 0 then None else Some (errs (a - 1)))"
    and "0 \<le> maxRetries"
  shows "withRetryLoop fn maxRetries prio a le
           = (Inl (errs (nat maxRetries)), concat (map (attemptEffects prio) [a..<nat maxRetries + 1]))"
  using assms(1,2,3)
proof (induction "nat (maxRetries + 1 - int a)" arbitrary: a le)
  case 0
  then have a: "int a = maxRetries + 1" by simp
  then have a': "a = nat maxRetries + 1" "a \<noteq> 0" "a - 1 = nat maxRetries"
    using assms(4) by auto
  have "\<not> int a \<le> maxRetries" using a by simp
  then have "withRetryLoop fn maxRetries prio a le = (Inl (errs (nat maxRetries)), [])"
    using 0(4) a'(2,3) by (subst withRetryLoop.simps) simp
  then show ?case
    using a' by simp
next
  case (Suc d)
  then have lt: "int a \<le> maxRetries" by simp
  then have e: "fn a = Inl (errs a)" "isRateLimited (errs a)"
    using Suc.prems(2) by auto
  have ih: "withRetryLoop fn maxRetries prio (Suc a) (Some (errs a))
              = (Inl (errs (nat maxRetries)), concat (map (attemptEffects prio) [Suc a..<nat maxRetries + 1]))"
    using Suc.hyps(2) Suc.prems lt by (intro Suc.hyps(1)) auto
  have "a < nat maxRetries + 1" using lt by simp
  then show ?case
    using e ih lt
    by (simp add: withRetryLoop.simps [of fn maxRetries prio a] upt_conv_Cons attemptEffects_def)
qed

lemma calls_attemptEffects:
  "length (filter isCall (concat (map (attemptEffects prio) [a..<b]))) = b - a"
proof (induction b)
  case 0
  then show ?case by simp
next
  case (Suc b)
  then show ?case by (cases "a \<le> b") (simp_all add: attemptEffects_def Suc_diff_le)
qed

text \<open>
  Claim C4. If the first \<open>K\<close> invocations of the operation fail with a rate-limit error
  (one whose message contains \<^verbatim>\<open>429\<close> or \<^verbatim>\<open>Rate limit\<close>) and invocation \<open>K + 1\<close> succeeds,
  with \<open>K \<le> maxRetries\<close>, then \<^verbatim>\<open>withRetry\<close> returns that success, invokes the operation
  exactly \<open>K + 1\<close> times, each after a call of \<^verbatim>\<open>waitForRateLimit\<close>, and sleeps
  \<open>RETRY_DELAY_MS * 2 ^ attempt\<close> after the failed attempt number \<open>attempt\<close> (from 0). If all
  \<open>maxRetries + 1\<close> invocations fail with rate-limit errors, the error of the last one is
  thrown to the caller.
\<close>

theorem withRetry_retries_then_succeeds:
  "(int K \<le> maxRetries \<and> (\<forall>i < K. \<exists>e. fn i = Inl e \<and> isRateLimited e) \<and> fn K = Inr v
      \<longrightarrow> withRetry fn maxRetries prio
            = (Inr v, concat (map (attemptEffects prio) [0..<K]) @ [WaitForRateLimit prio, Call K]) \<and>
          length (filter isCall (snd (withRetry fn maxRetries prio))) = K + 1) \<and>
   (0 \<le> maxRetries \<and> (\<forall>i \<le> nat maxRetries. fn i = Inl (errs i) \<and> isRateLimited (errs i))
      \<longrightarrow> withRetry fn maxRetries prio
            = (Inl (errs (nat maxRetries)), concat (map (attemptEffects prio) [0..<nat maxRetries + 1])) \<and>
          length (filter isCall (snd (withRetry fn maxRetries prio))) = nat maxRetries + 1)"
proof (intro conjI impI)
  assume h: "int K \<le> maxRetries \<and> (\<forall>i < K. \<exists>e. fn i = Inl e \<and> isRateLimited e) \<and> fn K = Inr v"
  then show s: "withRetry fn maxRetries prio
            = (Inr v, concat (map (attemptEffects prio) [0..<K]) @ [WaitForRateLimit prio, Call K])"
    unfolding withRetry_def by (intro withRetryLoop_success) auto
  show "length (filter isCall (snd (withRetry fn maxRetries prio))) = K + 1"
    using calls_attemptEffects [of prio 0 K] by (simp add: s)
next
  assume h: "0 \<le> maxRetries \<and> (\<forall>i \<le> nat maxRetries. fn i = Inl (errs i) \<and> isRateLimited (errs i))"
  then show s: "withRetry fn maxRetries prio
            = (Inl (errs (nat maxRetries)), concat (map (attemptEffects prio) [0..<nat maxRetries + 1]))"
    unfolding withRetry_def by (intro withRetryLoop_exhausted) auto
  show "length (filter isCall (snd (withRetry fn maxRetries prio))) = nat maxRetries + 1"
    using calls_attemptEffects [of prio 0 "nat maxRetries + 1"] by (simp add: s)
qed

definition flaky :: "nat \<Rightarrow> jsError + string" where
  "flaky i = (if i < 2 then Inl (Error ''Rate limit exceeded (429)'') else Inr ''ok'')"

definition throttled :: "nat \<Rightarrow> jsError" where
  "throttled i = Error (''Rate limit exceeded (429) #'' @ replicate i CHR ''x'')"


theorem withRetry_retries_witness:
  "flaky 0 = Inl (Error ''Rate limit exceeded (429)'') \<and>
   flaky 1 = Inl (Error ''Rate limit exceeded (429)'') \<and>
   isRateLimited (Error ''Rate limit exceeded (429)'') \<and>
   flaky 2 = Inr ''ok'' \<and>
   withRetry flaky 3 0
     = (Inr ''ok'', [WaitForRateLimit 0, Call 0, Sleep 1000,
                    WaitForRateLimit 0, Call 1, Sleep 2000,
                    WaitForRateLimit 0, Call 2]) \<and>
   isRateLimited (throttled 3) \<and>
   withRetry (\<lambda>i. Inl (throttled i) :: jsError + string) 3 0
     = (Inl (throttled 3),
        [WaitForRateLimit 0, Call 0, Sleep 1000, WaitForRateLimit 0, Call 1, Sleep 2000,
         WaitForRateLimit 0, Call 2, Sleep 4000, WaitForRateLimit 0, Call 3, Sleep 8000])"
proof -
  have r: "isRateLimited (Error ''Rate limit exceeded (429)'')"
    by (simp add: isRateLimited_def)
  have t: "\<And>i. isRateLimited (throttled i)"
    by (simp add: isRateLimited_def throttled_def)
  have f: "flaky 0 = Inl (Error ''Rate limit exceeded (429)'')"
    "flaky 1 = Inl (Error ''Rate limit exceeded (429)'')" "flaky 2 = Inr ''ok''"
    by (simp_all add: flaky_def)
  have h1: "\<forall>i < 2. \<exists>e. flaky i = Inl e \<and> isRateLimited e"
    using r by (simp add: flaky_def)
  have u: "[0..<2] = [0, Suc 0]" "[0..<4] = [0, 1, 2, 3]"
    by (simp_all add: upt_rec)
  note w = withRetry_retries_then_succeeds
    [where K = 2 and maxRetries = 3 and fn = flaky and v = "''ok''" and prio = 0]
    withRetry_retries_then_succeeds
    [where maxRetries = 3 and fn = "\<lambda>i. Inl (throttled i) :: jsError + string"
       and errs = throttled and prio = 0]
  show ?thesis
    using w h1 f r t by (simp add: u attemptEffects_def RETRY_DELAY_MS_def)
qed

section \<open>Cache (services/cache.ts)\<close>

text \<open>
  Cached values are what \<^verbatim>\<open>response.json()\<close> yields, or \<^verbatim>\<open>null\<close>; the numbers that
  occur (identifiers, counts, timestamps) are integers. A lookup that finds nothing is
  \<^verbatim>\<open>undefined\<close>, here \<open>None\<close>.
\<close>

datatype json =
    JNull
  | JBool bool
  | JNumber int
  | JString string
  | JArray "json list"
  | JObject "(string \<times> json) list"

fun truthy :: "json \<Rightarrow> bool" where
  "truthy JNull = False"
| "truthy (JBool b) = b"
| "truthy (JNumber n) = (n \<noteq> 0)"
| "truthy (JString s) = (s \<noteq> [])"
| "truthy (JArray xs) = True"
| "truthy (JObject ps) = True"

datatype CacheStore =
    dataDragon
  | playerProfile
  | rankedInfo
  | matchDetails
  | matchIds
  | liveGame
  | championMastery

definition allStores :: "CacheStore list" where
  "allStores =
     [dataDragon, playerProfile, rankedInfo, matchDetails, matchIds, liveGame, championMastery]"

fun CACHE_TTL :: "CacheStore \<Rightarrow> int" where
  "CACHE_TTL dataDragon = 24 * 60 * 60 * 1000"
| "CACHE_TTL playerProfile = 5 * 60 * 1000"
| "CACHE_TTL rankedInfo = 5 * 60 * 1000"
| "CACHE_TTL matchDetails = 7 * 24 * 60 * 60 * 1000"
| "CACHE_TTL matchIds = 2 * 60 * 1000"
| "CACHE_TTL liveGame = 30 * 1000"
| "CACHE_TTL championMastery = 10 * 60 * 1000"

fun cacheMax :: "CacheStore \<Rightarrow> nat" where
  "cacheMax matchDetails = 100"
| "cacheMax liveGame = 20"
| "cacheMax store = 50"

text \<open>
  Modelled from the spec: the entries of the class \<^verbatim>\<open>LRUCache\<close> of the package
  \<^verbatim>\<open>lru-cache\<close>, which \<^verbatim>\<open>services/cache.ts\<close> instantiates once per store and which is not
  among the sources. An entry is \<open>(key, value, insertedAt, ttl)\<close>.
\<close>

record CacheEntry =
  entryKey :: string
  entryValue :: json
  insertedAt :: int
  entryTtl :: int

text \<open>
  Modelled from the spec: the class \<^verbatim>\<open>LRUCache\<close> itself, absent from the sources: its
  capacity (\<^verbatim>\<open>max\<close>), its TTL, and its entries, kept most recently used first.
\<close>

record LRUCache =
  maxSize :: nat
  defaultTtl :: int
  entries :: "CacheEntry list"

text \<open>
  Modelled from the spec: \<^verbatim>\<open>LRUCache.get\<close>, absent from the sources. It returns absent when
  the key is missing or its entry has outlived its TTL (the expired entry is dropped), and
  otherwise returns the value and makes the entry the most recently used.
\<close>

definition lruGet :: "int \<Rightarrow> string \<Rightarrow> LRUCache \<Rightarrow> json option \<times> LRUCache" where
  "lruGet now k c =
     (case find (\<lambda>e. entryKey e = k) (entries c) of
        None \<Rightarrow> (None, c)
      | Some e \<Rightarrow>
          if now - insertedAt e > entryTtl e
          then (None, c\<lparr>entries := filter (\<lambda>e'. entryKey e' \<noteq> k) (entries c)\<rparr>)
          else (Some (entryValue e),
                c\<lparr>entries := e # filter (\<lambda>e'. entryKey e' \<noteq> k) (entries c)\<rparr>))"

text \<open>
  Modelled from the spec: \<^verbatim>\<open>LRUCache.set\<close>, absent from the sources. It inserts or replaces
  the entry of the key with the TTL of the store; when the store is at capacity it evicts
  the least recently used entry before inserting.
\<close>

definition lruSet :: "int \<Rightarrow> string \<Rightarrow> json \<Rightarrow> LRUCache \<Rightarrow> LRUCache" where
  "lruSet now k v c =
     (let others = filter (\<lambda>e. entryKey e \<noteq> k) (entries c);
          kept = (if length others \<ge> maxSize c then take (maxSize c - 1) others else others)
      in c\<lparr>entries :=
             \<lparr>entryKey = k, entryValue = v, insertedAt = now, entryTtl = defaultTtl c\<rparr> # kept\<rparr>)"

text \<open>
  Modelled from the spec: the property \<^verbatim>\<open>size\<close> of \<^verbatim>\<open>LRUCache\<close>, absent from the sources:
  the number of entries held.
\<close>

definition lruSize :: "LRUCache \<Rightarrow> nat" where
  "lruSize c = length (entries c)"

text \<open>
  Modelled from the spec: \<^verbatim>\<open>LRUCache.delete\<close>, absent from the sources: explicit
  invalidation of one key.
\<close>

definition lruDelete :: "string \<Rightarrow> LRUCache \<Rightarrow> LRUCache" where
  "lruDelete k c = c\<lparr>entries := filter (\<lambda>e. entryKey e \<noteq> k) (entries c)\<rparr>"

text \<open>
  Modelled from the spec: \<^verbatim>\<open>LRUCache.clear\<close>, absent from the sources: it empties the store.
\<close>

definition lruClear :: "LRUCache \<Rightarrow> LRUCache" where
  "lruClear c = c\<lparr>entries := []\<rparr>"

text \<open>The module state of \<^verbatim>\<open>services/cache.ts\<close>: the stores and \<^verbatim>\<open>config.enabled\<close>.\<close>

record CacheState =
  enabled :: bool
  caches :: "CacheStore \<Rightarrow> LRUCache"

definition initialCache :: CacheState where
  "initialCache =
     \<lparr>enabled = True,
      caches = (\<lambda>store. \<lparr>maxSize = cacheMax store, defaultTtl = CACHE_TTL store, entries = []\<rparr>)\<rparr>"

definition initCache :: "bool \<Rightarrow> CacheState \<Rightarrow> CacheState" where
  "initCache flag s = s\<lparr>enabled := flag\<rparr>"

definition isCacheEnabled :: "CacheState \<Rightarrow> bool" where
  "isCacheEnabled s = enabled s"

definition cacheGet :: "int \<Rightarrow> CacheStore \<Rightarrow> string \<Rightarrow> CacheState \<Rightarrow> json option \<times> CacheState" where
  "cacheGet now store key s =
     (if \<not> enabled s then (None, s)
      else (let r = lruGet now key (caches s store)
            in (fst r, s\<lparr>caches := (caches s)(store := snd r)\<rparr>)))"

definition cacheSet :: "int \<Rightarrow> CacheStore \<Rightarrow> string \<Rightarrow> json \<Rightarrow> CacheState \<Rightarrow> CacheState" where
  "cacheSet now store key v s =
     (if \<not> enabled s then s
      else s\<lparr>caches := (caches s)(store := lruSet now key v (caches s store))\<rparr>)"

definition cacheDelete :: "CacheStore \<Rightarrow> string \<Rightarrow> CacheState \<Rightarrow> CacheState" where
  "cacheDelete store key s = s\<lparr>caches := (caches s)(store := lruDelete key (caches s store))\<rparr>"

definition cacheClear :: "CacheStore option \<Rightarrow> CacheState \<Rightarrow> CacheState" where
  "cacheClear store s =
     (case store of
        Some st \<Rightarrow> s\<lparr>caches := (caches s)(st := lruClear (caches s st))\<rparr>
      | None \<Rightarrow> s\<lparr>caches := (\<lambda>st. lruClear (caches s st))\<rparr>)"

record StoreStats =
  size :: nat
  statsMaxSize :: nat

definition getCacheStats :: "CacheState \<Rightarrow> (CacheStore \<times> StoreStats) list \<times> CacheState" where
  "getCacheStats s =
     (map (\<lambda>name. (name, \<lparr>size = lruSize (caches s name), statsMaxSize = maxSize (caches s name)\<rparr>))
        allStores, s)"

text \<open>
  The calls a caller can make while the cache is switched off, used to describe a period
  of disabled caching: lookups and stores, each at its own time.
\<close>

datatype cacheCall =
    Get int CacheStore string
  | Put int CacheStore string json

fun cacheCalls :: "cacheCall list \<Rightarrow> CacheState \<Rightarrow> CacheState" where
  "cacheCalls [] s = s"
| "cacheCalls (Get now store key # cs) s = cacheCalls cs (snd (cacheGet now store key s))"
| "cacheCalls (Put now store key v # cs) s = cacheCalls cs (cacheSet now store key v s)"

lemma cacheGet_disabled: "\<not> enabled s \<Longrightarrow> cacheGet now store key s = (None, s)"
  by (simp add: cacheGet_def)

lemma cacheSet_disabled: "\<not> enabled s \<Longrightarrow> cacheSet now store key v s = s"
  by (simp add: cacheSet_def)

lemma cacheCalls_disabled: "\<not> enabled s \<Longrightarrow> cacheCalls calls s = s"
proof (induction calls)
  case Nil
  then show ?case by simp
next
  case (Cons c cs)
  then show ?case
    by (cases c) (simp_all add: cacheGet_disabled cacheSet_disabled)
qed

lemma lruGet_after_lruSet:
  "now - t0 \<le> defaultTtl c \<Longrightarrow> fst (lruGet now k (lruSet t0 k v c)) = Some v"
  by (simp add: lruGet_def lruSet_def Let_def)

lemma cacheGet_after_cacheSet:
  assumes "enabled s" and "now - t0 \<le> defaultTtl (caches s store)"
  shows "fst (cacheGet now store key (cacheSet t0 store key v s)) = Some v"
  using assms by (simp add: cacheGet_def cacheSet_def Let_def lruGet_after_lruSet)

text \<open>
  Claim C8. While \<^verbatim>\<open>config.enabled\<close> is false, \<^verbatim>\<open>cacheGet\<close> returns absent for every store
  and key and \<^verbatim>\<open>cacheSet\<close> changes nothing. A period of disabled caching, with any lookups
  and stores made during it, leaves every store as it was, so that re-enabling gives back
  the state before the period; a value stored before the period is returned by a lookup
  after it, as long as the entry is within the TTL of its store.
\<close>

theorem disabled_cache_is_inert:
  "(\<not> enabled s \<longrightarrow> cacheGet now store key s = (None, s) \<and> cacheSet now store key v s = s) \<and>
   caches (cacheCalls calls (initCache False s)) = caches s \<and>
   initCache True (cacheCalls calls (initCache False s)) = initCache True s \<and>
   (enabled s \<and> now - t0 \<le> defaultTtl (caches s store)
      \<longrightarrow> fst (cacheGet now store key
                 (initCache True (cacheCalls calls (initCache False (cacheSet t0 store key v s)))))
            = Some v)"
proof -
  have off: "\<And>s'. cacheCalls calls (initCache False s') = initCache False s'"
    by (rule cacheCalls_disabled) (simp add: initCache_def)
  have on: "\<And>s'. initCache True (initCache False s') = initCache True s'"
    by (simp add: initCache_def)
  have same: "\<And>s'. enabled s' \<Longrightarrow> initCache True s' = s'"
    by (simp add: initCache_def)
  have "enabled s \<Longrightarrow> enabled (cacheSet t0 store key v s)"
    by (simp add: cacheSet_def)
  then have "enabled s \<and> now - t0 \<le> defaultTtl (caches s store)
      \<longrightarrow> fst (cacheGet now store key
                 (initCache True (cacheCalls calls (initCache False (cacheSet t0 store key v s)))))
            = Some v"
    by (simp add: off on same cacheGet_after_cacheSet)
  moreover have "caches (cacheCalls calls (initCache False s)) = caches s"
    unfolding off by (simp add: initCache_def)
  ultimately show ?thesis
    by (simp add: off on cacheGet_disabled cacheSet_disabled)
qed

definition storedGame :: json where
  "storedGame = JObject [(''gameId'', JNumber 42)]"

definition offCalls :: "cacheCall list" where
  "offCalls = [Get 1000 liveGame ''livegame:p:euw1'', Put 2000 liveGame ''livegame:p:euw1'' JNull,
               Put 3000 liveGame ''other'' JNull]"

theorem disabled_cache_witness:
  "\<not> enabled (initCache False initialCache) \<and>
   cacheGet 5000 liveGame ''k'' (initCache False initialCache) = (None, initCache False initialCache) \<and>
   cacheSet 5000 liveGame ''k'' JNull (initCache False initialCache) = initCache False initialCache \<and>
   enabled initialCache \<and> 5000 - 0 \<le> defaultTtl (caches initialCache liveGame) \<and>
   fst (cacheGet 5000 liveGame ''livegame:p:euw1''
          (initCache True (cacheCalls offCalls
             (initCache False (cacheSet 0 liveGame ''livegame:p:euw1'' storedGame initialCache)))))
     = Some storedGame"
proof -
  have h1: "\<not> enabled (initCache False initialCache)"
    by (simp add: initCache_def)
  have h2: "enabled initialCache" "5000 - 0 \<le> defaultTtl (caches initialCache liveGame)"
    by (simp_all add: initialCache_def)
  show ?thesis
    using disabled_cache_is_inert [of "initCache False initialCache" 5000 liveGame "''k''" JNull offCalls 0]
      disabled_cache_is_inert [of initialCache 5000 liveGame "''livegame:p:euw1''" storedGame offCalls 0]
      h1 h2
    by simp
qed

section \<open>Data Dragon (services/data-dragon.ts)\<close>

text \<open>Decimal rendering of numbers, as template strings and \<^verbatim>\<open>toString()\<close> print integers.\<close>

definition digitChar :: "nat \<Rightarrow> char" where
  "digitChar d = ''0123456789'' ! d"

fun showNat :: "nat \<Rightarrow> string" where
  "showNat n = (if n < 10 then [digitChar n] else showNat (n div 10) @ [digitChar (n mod 10)])"

declare showNat.simps [simp del]

definition showInt :: "int \<Rightarrow> string" where
  "showInt i = (if i < 0 then ''-'' @ showNat (nat (- i)) else showNat (nat i))"

definition DATA_DRAGON_CDN :: string where
  "DATA_DRAGON_CDN = ''https://ddragon.leagueoflegends.com/cdn''"

text \<open>
  The module state: the current version and the five indices, each a \<^verbatim>\<open>Map\<close> kept as the
  list of its entries in insertion order. Of an item, the fields read by the resolver are
  kept; champions, spells and runes are not inspected here and stay opaque.
\<close>

record ItemGold =
  base :: int
  total :: int
  sell :: int
  purchasable :: bool

record ItemData =
  itemName :: string
  itemDescription :: string
  plaintext :: string
  gold :: ItemGold

record ResolvedItem =
  resolvedId :: int
  resolvedName :: string
  resolvedDescription :: string
  cost :: int
  imageUrl :: string

record DataDragonState =
  currentVersion :: "string option"
  championsById :: "(int \<times> json) list"
  championsByName :: "(string \<times> json) list"
  itemsById :: "(int \<times> ItemData) list"
  spellsById :: "(int \<times> json) list"
  runesById :: "(int \<times> json) list"

definition initialDataDragon :: DataDragonState where
  "initialDataDragon =
     \<lparr>currentVersion = None, championsById = [], championsByName = [],
      itemsById = [], spellsById = [], runesById = []\<rparr>"

definition versionString :: "string option \<Rightarrow> string" where
  "versionString v = (case v of None \<Rightarrow> ''null'' | Some s \<Rightarrow> s)"

definition getItemById :: "int \<Rightarrow> DataDragonState \<Rightarrow> ResolvedItem option" where
  "getItemById id' dd =
     (if id' = 0 then None
      else (case map_of (itemsById dd) id' of
              None \<Rightarrow> None
            | Some item \<Rightarrow>
                Some \<lparr>resolvedId = id',
                      resolvedName = itemName item,
                      resolvedDescription =
                        (if plaintext item \<noteq> [] then plaintext item else itemDescription item),
                      cost = total (gold item),
                      imageUrl = DATA_DRAGON_CDN @ ''/'' @ versionString (currentVersion dd)
                                 @ ''/img/item/'' @ showInt id' @ ''.png''\<rparr>))"

definition resolveItems :: "int list \<Rightarrow> DataDragonState \<Rightarrow> ResolvedItem option list" where
  "resolveItems itemIds dd = map (\<lambda>i. getItemById i dd) itemIds"

record DataDragonStatus =
  version :: "string option"
  championsLoaded :: nat
  itemsLoaded :: nat
  spellsLoaded :: nat
  runesLoaded :: nat

definition getDataDragonStatus :: "DataDragonState \<Rightarrow> DataDragonStatus \<times> DataDragonState" where
  "getDataDragonStatus dd =
     (\<lparr>version = currentVersion dd,
       championsLoaded = length (championsById dd),
       itemsLoaded = length (itemsById dd),
       spellsLoaded = length (spellsById dd),
       runesLoaded = length (runesById dd)\<rparr>, dd)"

definition emptySlotItem :: ItemData where
  "emptySlotItem =
     \<lparr>itemName = ''Placeholder'', itemDescription = ''kept under key 0'', plaintext = [],
      gold = \<lparr>base = 0, total = 0, sell = 0, purchasable = False\<rparr>\<rparr>"

text \<open>
  Claim C9. \<^verbatim>\<open>getItemById(0)\<close> is absent whatever the module state is: before any load,
  after a load, and even with an entry under key 0 in the item index, which is not
  consulted for this id.
\<close>

theorem getItemById_zero_absent:
  "getItemById 0 dd = None"
  by (simp add: getItemById_def)

theorem getItemById_zero_witness:
  "map_of (itemsById (initialDataDragon\<lparr>itemsById := [(0, emptySlotItem)]\<rparr>)) 0 = Some emptySlotItem \<and>
   getItemById 0 (initialDataDragon\<lparr>itemsById := [(0, emptySlotItem)]\<rparr>) = None \<and>
   getItemById 0 initialDataDragon = None"
  using getItemById_zero_absent [of "initialDataDragon\<lparr>itemsById := [(0, emptySlotItem)]\<rparr>"]
    getItemById_zero_absent [of initialDataDragon]
  by simp

section \<open>Status snapshots\<close>

lemma resetCountersIfNeeded_idem:
  "resetCountersIfNeeded now (resetCountersIfNeeded now s) = resetCountersIfNeeded now s"
  by (simp add: resetCountersIfNeeded_def Let_def)

lemma resetCountersIfNeeded_within:
  "now - lastSecondReset s < 1000 \<Longrightarrow> now - last2MinutesReset s < 120000 \<Longrightarrow>
   resetCountersIfNeeded now s = s"
  by (simp add: resetCountersIfNeeded_def Let_def)

lemma getRateLimitStatus_state:
  "snd (getRateLimitStatus now s) = resetCountersIfNeeded now s"
  by (simp add: getRateLimitStatus_def canMakeRequest_def Let_def resetCountersIfNeeded_idem)

text \<open>
  Claim C6, as amended. \<^verbatim>\<open>getCacheStats\<close> and \<^verbatim>\<open>getDataDragonStatus\<close> leave the state of
  their modules unchanged. \<^verbatim>\<open>getRateLimitStatus\<close> leaves the wait queue and the servicer
  flag unchanged, and its only effect on the windows is the reset rule of
  \<^verbatim>\<open>resetCountersIfNeeded\<close>, which it calls; when neither window has run out at the time of
  the call, it changes nothing.
\<close>

theorem status_snapshots_frame:
  "snd (getCacheStats c) = c \<and>
   snd (getDataDragonStatus dd) = dd \<and>
   snd (getRateLimitStatus now s) = resetCountersIfNeeded now s \<and>
   queue (snd (getRateLimitStatus now s)) = queue s \<and>
   processing (snd (getRateLimitStatus now s)) = processing s \<and>
   (now - lastSecondReset s < 1000 \<and> now - last2MinutesReset s < 120000
      \<longrightarrow> snd (getRateLimitStatus now s) = s)"
proof -
  have "snd (getCacheStats c) = c"
    by (simp add: getCacheStats_def)
  moreover have "snd (getDataDragonStatus dd) = dd"
    by (simp add: getDataDragonStatus_def)
  moreover have "queue (resetCountersIfNeeded now s) = queue s"
    by (rule queue_resetCountersIfNeeded)
  moreover have "processing (resetCountersIfNeeded now s) = processing s"
    by (simp add: resetCountersIfNeeded_def Let_def)
  ultimately show ?thesis
    by (simp add: getRateLimitStatus_state resetCountersIfNeeded_within)
qed

theorem status_snapshots_frame_witness:
  "500 - lastSecondReset busyState < 1000 \<and> 500 - last2MinutesReset busyState < 120000 \<and>
   snd (getRateLimitStatus 500 busyState) = busyState \<and>
   snd (getCacheStats initialCache) = initialCache \<and>
   snd (getDataDragonStatus initialDataDragon) = initialDataDragon"
proof -
  have h: "500 - lastSecondReset busyState < 1000" "500 - last2MinutesReset busyState < 120000"
    by (simp_all add: busyState_def)
  show ?thesis
    using status_snapshots_frame [of initialCache initialDataDragon 500 busyState] h
    by blast
qed

text \<open>
  The claim as stated fails: called at time 1000 on \<open>busyState\<close>, whose short window began
  at time 0 with 20 requests counted, \<^verbatim>\<open>getRateLimitStatus\<close> sets the counter to 0 and the
  start of the window to 1000.
\<close>

theorem getRateLimitStatus_not_read_only:
  "requestsThisSecond busyState = 20 \<and> lastSecondReset busyState = 0 \<and>
   requestsThisSecond (snd (getRateLimitStatus 1000 busyState)) = 0 \<and>
   lastSecondReset (snd (getRateLimitStatus 1000 busyState)) = 1000 \<and>
   snd (getRateLimitStatus 1000 busyState) \<noteq> busyState"
proof -
  have a: "requestsThisSecond (snd (getRateLimitStatus 1000 busyState)) = 0"
    "lastSecondReset (snd (getRateLimitStatus 1000 busyState)) = 1000"
    by (simp_all add: getRateLimitStatus_state resetCountersIfNeeded_def busyState_def Let_def)
  have b: "requestsThisSecond busyState = 20" "lastSecondReset busyState = 0"
    by (simp_all add: busyState_def)
  have "snd (getRateLimitStatus 1000 busyState) \<noteq> busyState"
    using a(1) b(1) by (metis zero_neq_numeral)
  then show ?thesis
    using a b by simp
qed

section \<open>Riot API client (services/riot-client.ts)\<close>

datatype Region =
    euw1 | eun1 | na1 | kr | br1 | la1 | la2 | oc1
  | tr1 | ru | jp1 | ph2 | sg2 | th2 | tw2 | vn2

fun regionString :: "Region \<Rightarrow> string" where
  "regionString euw1 = ''euw1''"
| "regionString eun1 = ''eun1''"
| "regionString na1 = ''na1''"
| "regionString kr = ''kr''"
| "regionString br1 = ''br1''"
| "regionString la1 = ''la1''"
| "regionString la2 = ''la2''"
| "regionString oc1 = ''oc1''"
| "regionString tr1 = ''tr1''"
| "regionString ru = ''ru''"
| "regionString jp1 = ''jp1''"
| "regionString ph2 = ''ph2''"
| "regionString sg2 = ''sg2''"
| "regionString th2 = ''th2''"
| "regionString tw2 = ''tw2''"
| "regionString vn2 = ''vn2''"

fun REGION_TO_ROUTE :: "Region \<Rightarrow> string" where
  "REGION_TO_ROUTE euw1 = ''europe''"
| "REGION_TO_ROUTE eun1 = ''europe''"
| "REGION_TO_ROUTE tr1 = ''europe''"
| "REGION_TO_ROUTE ru = ''europe''"
| "REGION_TO_ROUTE na1 = ''americas''"
| "REGION_TO_ROUTE br1 = ''americas''"
| "REGION_TO_ROUTE la1 = ''americas''"
| "REGION_TO_ROUTE la2 = ''americas''"
| "REGION_TO_ROUTE kr = ''asia''"
| "REGION_TO_ROUTE jp1 = ''asia''"
| "REGION_TO_ROUTE oc1 = ''sea''"
| "REGION_TO_ROUTE ph2 = ''sea''"
| "REGION_TO_ROUTE sg2 = ''sea''"
| "REGION_TO_ROUTE th2 = ''sea''"
| "REGION_TO_ROUTE tw2 = ''sea''"
| "REGION_TO_ROUTE vn2 = ''sea''"

text \<open>
  The module state of the client: the API key, the default region, and the cache module
  it calls. An HTTP response is its status and the outcomes of \<^verbatim>\<open>response.text()\<close> and
  \<^verbatim>\<open>response.json()\<close>, of which the code awaits one. The
  remote API is an oracle: \<open>upstream url i\<close> is the outcome of the \<open>i\<close>-th \<^verbatim>\<open>fetch\<close> of
  \<open>url\<close> made by one call of \<^verbatim>\<open>riotFetch\<close> (\<open>Inl\<close> when \<^verbatim>\<open>fetch\<close> itself throws). An
  operation of the client returns its result (\<open>Inl\<close> a thrown error), the effects of
  \<^verbatim>\<open>withRetry\<close>, and the new state.
\<close>

record ClientState =
  riotApiKey :: "string option"
  defaultRegion :: Region
  cache :: CacheState

record HttpResponse =
  status :: nat
  responseText :: "jsError + string"
  responseJson :: "jsError + json"

type_synonym upstream = "string \<Rightarrow> nat \<Rightarrow> jsError + HttpResponse"

definition ok :: "HttpResponse \<Rightarrow> bool" where
  "ok response \<longleftrightarrow> 200 \<le> status response \<and> status response \<le> 299"

definition initRiotClient :: "string \<Rightarrow> Region \<Rightarrow> ClientState \<Rightarrow> ClientState" where
  "initRiotClient apiKey region s = s\<lparr>riotApiKey := Some apiKey, defaultRegion := region\<rparr>"

definition getApiKey :: "ClientState \<Rightarrow> jsError + string" where
  "getApiKey s =
     (case riotApiKey s of
        None \<Rightarrow> Inl (Error ''Riot API client not initialized. Call initRiotClient first.'')
      | Some k \<Rightarrow>
          if k = [] then Inl (Error ''Riot API client not initialized. Call initRiotClient first.'')
          else Inr k)"

definition getRegionalRoute :: "Region \<Rightarrow> string" where
  "getRegionalRoute region = REGION_TO_ROUTE region"

text \<open>The function passed to \<^verbatim>\<open>withRetry\<close> by \<^verbatim>\<open>riotFetch\<close>, applied to the outcome of its \<^verbatim>\<open>fetch\<close>.\<close>

definition riotRequest :: "jsError + HttpResponse \<Rightarrow> jsError + json" where
  "riotRequest fetched =
     (case fetched of
        Inl error \<Rightarrow> Inl error
      | Inr response \<Rightarrow>
          if \<not> ok response
          then (case responseText response of
                  Inl error \<Rightarrow> Inl error
                | Inr errorBody \<Rightarrow>
                    if status response = 401 then Inl (Error ''Invalid Riot API key'')
                    else if status response = 403
                    then Inl (Error ''Riot API key does not have access to this endpoint'')
                    else if status response = 404 then Inl (Error ''Resource not found'')
                    else if status response = 429 then Inl (Error ''Rate limit exceeded (429)'')
                    else Inl (Error (''Riot API error: '' @ showNat (status response))))
          else responseJson response)"

definition riotFetch ::
  "upstream \<Rightarrow> string \<Rightarrow> int \<Rightarrow> ClientState \<Rightarrow> (jsError + json) \<times> effect list" where
  "riotFetch up url prio s =
     (case getApiKey s of
        Inl error \<Rightarrow> (Inl error, [])
      | Inr apiKey \<Rightarrow> withRetry (\<lambda>i. riotRequest (up url i)) 3 prio)"

text \<open>
  \<^verbatim>\<open>getCurrentGame(puuid, region)\<close>. The lookup in the cache happens at time \<open>now\<close>, the
  store after the awaited request at time \<open>now'\<close>. The cache key and the URL are the two
  template strings of the function.
\<close>

definition liveGameKey :: "string \<Rightarrow> Region \<Rightarrow> string" where
  "liveGameKey puuid region = ''livegame:'' @ puuid @ '':'' @ regionString region"

definition liveGameUrl :: "string \<Rightarrow> Region \<Rightarrow> string" where
  "liveGameUrl puuid region =
     ''https://'' @ regionString region
       @ ''.api.riotgames.com/lol/spectator/v5/active-games/by-summoner/'' @ puuid"

definition getCurrentGame ::
  "int \<Rightarrow> int \<Rightarrow> upstream \<Rightarrow> string \<Rightarrow> Region \<Rightarrow> ClientState
     \<Rightarrow> (jsError + json) \<times> effect list \<times> ClientState" where
  "getCurrentGame now now' up puuid region s =
     (let cacheKey = liveGameKey puuid region;
          looked = cacheGet now liveGame cacheKey (cache s);
          s1 = s\<lparr>cache := snd looked\<rparr>
      in case fst looked of
           Some cached \<Rightarrow> (Inr cached, [], s1)
         | None \<Rightarrow>
             (let url = liveGameUrl puuid region;
                  fetched = riotFetch up url 0 s1
              in case fst fetched of
                   Inr game \<Rightarrow>
                     (Inr game, snd fetched,
                      s1\<lparr>cache := cacheSet now' liveGame cacheKey game (cache s1)\<rparr>)
                 | Inl error \<Rightarrow>
                     if includesStr (message error) ''404''
                     then (Inr JNull, snd fetched,
                           s1\<lparr>cache := cacheSet now' liveGame cacheKey JNull (cache s1)\<rparr>)
                     else (Inl error, snd fetched, s1)))"

subsection \<open>The live-game lookup on a 404 response\<close>

lemma cacheGet_absent:
  "find (\<lambda>e. entryKey e = key) (entries (caches s store)) = None \<Longrightarrow>
   cacheGet now store key s = (None, s)"
  by (simp add: cacheGet_def lruGet_def Let_def)

lemma riotRequest_404:
  "status response = 404 \<Longrightarrow> responseText response = Inr errorBody \<Longrightarrow>
   riotRequest (Inr response) = Inl (Error ''Resource not found'')"
  by (simp add: riotRequest_def ok_def)

lemma not_found_not_rate_limited: "\<not> isRateLimited (Error ''Resource not found'')"
  by (simp add: isRateLimited_def)

lemma withRetry_fatal_first:
  assumes "fn 0 = Inl e" and "\<not> isRateLimited e" and "0 \<le> maxRetries"
  shows "withRetry fn maxRetries prio = (Inl e, [WaitForRateLimit prio, Call 0])"
  unfolding withRetry_def using assms by (subst withRetryLoop.simps) simp

text \<open>
  Claim C1 does not hold of the code. With the client initialised and nothing cached for
  the player, a 404 response makes \<^verbatim>\<open>riotFetch\<close> throw \<^verbatim>\<open>Error('Resource not found')\<close>;
  \<^verbatim>\<open>withRetry\<close> rethrows it after one attempt, and \<^verbatim>\<open>getCurrentGame\<close>, which looks for
  \<^verbatim>\<open>404\<close> in the message, rethrows it as well: the caller gets the error, and nothing is
  stored in the \<^verbatim>\<open>liveGame\<close> cache.
\<close>

theorem getCurrentGame_not_found_is_thrown:
  assumes "getApiKey s = Inr apiKey"
    and "fst (cacheGet now liveGame (liveGameKey puuid region) (cache s)) = None"
    and "up (liveGameUrl puuid region) 0 = Inr response"
    and "status response = 404" and "responseText response = Inr errorBody"
  shows "getCurrentGame now now' up puuid region s
           = (Inl (Error ''Resource not found''), [WaitForRateLimit 0, Call 0],
              s\<lparr>cache := snd (cacheGet now liveGame (liveGameKey puuid region) (cache s))\<rparr>)"
proof -
  define s1 where "s1 = s\<lparr>cache := snd (cacheGet now liveGame (liveGameKey puuid region) (cache s))\<rparr>"
  have k: "getApiKey s1 = Inr apiKey"
    using assms(1) by (simp add: getApiKey_def s1_def)
  have "riotRequest (up (liveGameUrl puuid region) 0) = Inl (Error ''Resource not found'')"
    using assms(3,4,5) by (simp add: riotRequest_404)
  then have "withRetry (\<lambda>i. riotRequest (up (liveGameUrl puuid region) i)) 3 0
               = (Inl (Error ''Resource not found''), [WaitForRateLimit 0, Call 0])"
    by (intro withRetry_fatal_first) (simp_all add: not_found_not_rate_limited)
  then have f: "riotFetch up (liveGameUrl puuid region) 0 s1
               = (Inl (Error ''Resource not found''), [WaitForRateLimit 0, Call 0])"
    by (simp add: riotFetch_def k)
  have n: "\<not> includesStr ''Resource not found'' ''404''"
    by simp
  show ?thesis
    using assms(2) f n
    by (simp add: getCurrentGame_def Let_def s1_def [symmetric])
qed

definition readyClient :: ClientState where
  "readyClient = \<lparr>riotApiKey = Some ''RGAPI-test'', defaultRegion = euw1, cache = initialCache\<rparr>"

definition notFoundResponse :: HttpResponse where
  "notFoundResponse =
     \<lparr>status = 404,
      responseText = Inr ''{\"status\":{\"message\":\"Data not found\",\"status_code\":404}}'',
      responseJson = Inr (JObject [(''status'', JObject [(''message'', JString ''Data not found''),
                                                         (''status_code'', JNumber 404)])])\<rparr>"

definition notInGame :: upstream where
  "notInGame url i = Inr notFoundResponse"

theorem getCurrentGame_not_found_witness:
  "getApiKey readyClient = Inr ''RGAPI-test'' \<and>
   fst (cacheGet 0 liveGame (liveGameKey ''p1'' euw1) (cache readyClient)) = None \<and>
   notInGame (liveGameUrl ''p1'' euw1) 0 = Inr notFoundResponse \<and>
   status notFoundResponse = 404 \<and>
   getCurrentGame 0 50 notInGame ''p1'' euw1 readyClient
     = (Inl (Error ''Resource not found''), [WaitForRateLimit 0, Call 0], readyClient)"
proof -
  have h1: "getApiKey readyClient = Inr ''RGAPI-test''"
    by (simp add: getApiKey_def readyClient_def)
  have c: "cacheGet 0 liveGame (liveGameKey ''p1'' euw1) (cache readyClient)
             = (None, cache readyClient)"
    by (rule cacheGet_absent) (simp add: readyClient_def initialCache_def)
  have h2: "fst (cacheGet 0 liveGame (liveGameKey ''p1'' euw1) (cache readyClient)) = None"
    by (simp add: c)
  have h3: "notInGame (liveGameUrl ''p1'' euw1) 0 = Inr notFoundResponse"
    by (simp add: notInGame_def)
  have h4: "status notFoundResponse = 404"
    by (simp add: notFoundResponse_def)
  have h5: "responseText notFoundResponse
              = Inr ''{\"status\":{\"message\":\"Data not found\",\"status_code\":404}}''"
    by (simp add: notFoundResponse_def)
  show ?thesis
    using getCurrentGame_not_found_is_thrown
        [where s = readyClient and up = notInGame and now' = 50, OF h1 h2 h3 h4 h5] h1 h2 h3 h4 c
    by simp
qed

subsection \<open>Match details\<close>

text \<open>
  \<^verbatim>\<open>getMatch(matchId, region)\<close>. A cached value is used when it is truthy
  (\<^verbatim>\<open>if (cached) return cached\<close>).
\<close>

definition matchKey :: "string \<Rightarrow> string" where
  "matchKey matchId = ''match:'' @ matchId"

definition matchUrl :: "string \<Rightarrow> Region \<Rightarrow> string" where
  "matchUrl matchId region =
     ''https://'' @ getRegionalRoute region @ ''.api.riotgames.com/lol/match/v5/matches/'' @ matchId"

definition getMatch ::
  "int \<Rightarrow> int \<Rightarrow> upstream \<Rightarrow> string \<Rightarrow> Region \<Rightarrow> ClientState
     \<Rightarrow> (jsError + json) \<times> effect list \<times> ClientState" where
  "getMatch now now' up matchId region s =
     (let cacheKey = matchKey matchId;
          looked = cacheGet now matchDetails cacheKey (cache s);
          s1 = s\<lparr>cache := snd looked\<rparr>;
          url = matchUrl matchId region;
          fetched = riotFetch up url 0 s1;
          onMiss = (case fst fetched of
                      Inr match \<Rightarrow>
                        (Inr match, snd fetched,
                         s1\<lparr>cache := cacheSet now' matchDetails cacheKey match (cache s1)\<rparr>)
                    | Inl error \<Rightarrow> (Inl error, snd fetched, s1))
      in case fst looked of
           Some cached \<Rightarrow> if truthy cached then (Inr cached, [], s1) else onMiss
         | None \<Rightarrow> onMiss)"

subsection \<open>The list of match ids and its cache key\<close>

text \<open>
  The \<^verbatim>\<open>options\<close> object of \<^verbatim>\<open>getMatchIds\<close> is the list of its own properties in
  insertion order, which is the order in which \<^verbatim>\<open>JSON.stringify\<close> prints them. A property
  holds a number, one of the four match types, or \<^verbatim>\<open>undefined\<close> (\<open>None\<close>), which
  \<^verbatim>\<open>JSON.stringify\<close> leaves out. Property names are unique within an object.
\<close>

datatype matchType = ranked | normal | tourney | tutorial

fun matchTypeString :: "matchType \<Rightarrow> string" where
  "matchTypeString ranked = ''ranked''"
| "matchTypeString normal = ''normal''"
| "matchTypeString tourney = ''tourney''"
| "matchTypeString tutorial = ''tutorial''"

datatype optionValue =
    Num int
  | Type matchType

type_synonym options = "(string \<times> optionValue option) list"

definition dquote :: string where
  "dquote = [CHR 0x22]"

fun joinWith :: "string \<Rightarrow> string list \<Rightarrow> string" where
  "joinWith sep [] = []"
| "joinWith sep [x] = x"
| "joinWith sep (x # y # ys) = x @ sep @ joinWith sep (y # ys)"

fun stringifyValue :: "optionValue \<Rightarrow> string" where
  "stringifyValue (Num n) = showInt n"
| "stringifyValue (Type t) = dquote @ matchTypeString t @ dquote"

fun stringifyProperty :: "string \<times> optionValue option \<Rightarrow> string list" where
  "stringifyProperty (name, None) = []"
| "stringifyProperty (name, Some v) = [dquote @ name @ dquote @ '':'' @ stringifyValue v]"

definition jsonStringify :: "options \<Rightarrow> string" where
  "jsonStringify opts = ''{'' @ joinWith '','' (concat (map stringifyProperty opts)) @ ''}''"

text \<open>Reading a property: absent and \<^verbatim>\<open>undefined\<close> are alike.\<close>

definition getOption :: "options \<Rightarrow> string \<Rightarrow> optionValue option" where
  "getOption opts name = (case map_of opts name of Some (Some v) \<Rightarrow> Some v | _ \<Rightarrow> None)"

fun truthyOption :: "optionValue option \<Rightarrow> bool" where
  "truthyOption None = False"
| "truthyOption (Some (Num n)) = (n \<noteq> 0)"
| "truthyOption (Some (Type t)) = True"

fun optionToString :: "optionValue \<Rightarrow> string" where
  "optionToString (Num n) = showInt n"
| "optionToString (Type t) = matchTypeString t"

definition appendIf :: "bool \<Rightarrow> string \<Rightarrow> optionValue option \<Rightarrow> string list" where
  "appendIf cond name v =
     (case v of Some x \<Rightarrow> if cond then [name @ ''='' @ optionToString x] else [] | None \<Rightarrow> [])"

definition matchIdsQuery :: "options \<Rightarrow> string" where
  "matchIdsQuery opts =
     joinWith ''&''
       (appendIf (truthyOption (getOption opts ''startTime'')) ''startTime'' (getOption opts ''startTime'')
        @ appendIf (truthyOption (getOption opts ''endTime'')) ''endTime'' (getOption opts ''endTime'')
        @ appendIf (truthyOption (getOption opts ''queue'')) ''queue'' (getOption opts ''queue'')
        @ appendIf (truthyOption (getOption opts ''type'')) ''type'' (getOption opts ''type'')
        @ appendIf True ''start'' (getOption opts ''start'')
        @ appendIf (truthyOption (getOption opts ''count'')) ''count'' (getOption opts ''count''))"

definition matchIdsCacheKey :: "string \<Rightarrow> options \<Rightarrow> Region \<Rightarrow> string" where
  "matchIdsCacheKey puuid opts region =
     ''matchIds:'' @ puuid @ '':'' @ regionString region @ '':'' @ jsonStringify opts"

definition matchIdsUrl :: "string \<Rightarrow> options \<Rightarrow> Region \<Rightarrow> string" where
  "matchIdsUrl puuid opts region =
     (let queryString = matchIdsQuery opts
      in ''https://'' @ getRegionalRoute region
         @ ''.api.riotgames.com/lol/match/v5/matches/by-puuid/'' @ puuid @ ''/ids''
         @ (if queryString \<noteq> [] then ''?'' @ queryString else []))"

definition getMatchIds ::
  "int \<Rightarrow> int \<Rightarrow> upstream \<Rightarrow> string \<Rightarrow> options \<Rightarrow> Region \<Rightarrow> ClientState
     \<Rightarrow> (jsError + json) \<times> effect list \<times> ClientState" where
  "getMatchIds now now' up puuid opts region s =
     (let cacheKey = matchIdsCacheKey puuid opts region;
          looked = cacheGet now matchIds cacheKey (cache s);
          s1 = s\<lparr>cache := snd looked\<rparr>;
          url = matchIdsUrl puuid opts region;
          fetched = riotFetch up url 0 s1;
          onMiss = (case fst fetched of
                      Inr ids \<Rightarrow>
                        (Inr ids, snd fetched,
                         s1\<lparr>cache := cacheSet now' matchIds cacheKey ids (cache s1)\<rparr>)
                    | Inl error \<Rightarrow> (Inl error, snd fetched, s1))
      in case fst looked of
           Some cached \<Rightarrow> if truthy cached then (Inr cached, [], s1) else onMiss
         | None \<Rightarrow> onMiss)"

text \<open>
  The properties of an options object that \<^verbatim>\<open>JSON.stringify\<close> prints: those that are not
  \<^verbatim>\<open>undefined\<close>, in their order.
\<close>

definition definedProperties :: "options \<Rightarrow> options" where
  "definedProperties opts = filter (\<lambda>p. snd p \<noteq> None) opts"

lemma stringify_definedProperties:
  "concat (map stringifyProperty (definedProperties opts)) = concat (map stringifyProperty opts)"
proof (induction opts)
  case Nil
  then show ?case by (simp add: definedProperties_def)
next
  case (Cons p ps)
  obtain name v where p: "p = (name, v)" by (cases p)
  show ?case
    using Cons by (cases v) (simp_all add: p definedProperties_def)
qed

lemma matchIdsCacheKey_definedProperties:
  "definedProperties o1 = definedProperties o2 \<Longrightarrow>
   matchIdsCacheKey puuid o1 region = matchIdsCacheKey puuid o2 region"
  using stringify_definedProperties [of o1] stringify_definedProperties [of o2]
  by (simp add: matchIdsCacheKey_def jsonStringify_def)

lemma defaultTtl_lruGet: "defaultTtl (snd (lruGet now k c)) = defaultTtl c"
  by (simp add: lruGet_def split: option.splits)

lemma cacheGet_keeps:
  "enabled (snd (cacheGet now store key c)) = enabled c"
  "defaultTtl (caches (snd (cacheGet now store key c)) st) = defaultTtl (caches c st)"
  by (simp_all add: cacheGet_def Let_def defaultTtl_lruGet)

lemma getMatchIds_fetched:
  assumes "getMatchIds t0 t1 up puuid opts region s = (Inr ids, eff, s')" and "eff \<noteq> []"
  shows "cache s' = cacheSet t1 matchIds (matchIdsCacheKey puuid opts region) ids
                      (snd (cacheGet t0 matchIds (matchIdsCacheKey puuid opts region) (cache s)))"
  using assms
  by (auto simp: getMatchIds_def Let_def split: option.splits sum.splits if_splits)

lemma getMatchIds_hit:
  assumes "fst (cacheGet now matchIds (matchIdsCacheKey puuid opts region) (cache s)) = Some ids"
    and "truthy ids"
  shows "fst (getMatchIds now now' up puuid opts region s) = Inr ids \<and>
         fst (snd (getMatchIds now now' up puuid opts region s)) = []"
  using assms by (simp add: getMatchIds_def Let_def)

text \<open>
  Claim C5, as amended. The cache key of \<^verbatim>\<open>getMatchIds\<close> is built from
  \<^verbatim>\<open>JSON.stringify(options)\<close>, which follows the order of the properties. Two options
  objects whose defined properties are the same name-value pairs in the same order have
  the same cache key, and a list fetched and cached under one of them is returned from the
  cache, without a request, for the other, as long as the entry is within the TTL of the
  \<^verbatim>\<open>matchIds\<close> store.
\<close>

theorem matchIds_key_follows_property_order:
  assumes "definedProperties o1 = definedProperties o2"
    and "enabled (cache s)"
    and "getMatchIds t0 t1 up puuid o1 region s = (Inr ids, eff, s')" and "eff \<noteq> []"
    and "truthy ids"
    and "now - t1 \<le> defaultTtl (caches (cache s) matchIds)"
  shows "matchIdsCacheKey puuid o1 region = matchIdsCacheKey puuid o2 region \<and>
         fst (getMatchIds now now' up' puuid o2 region s') = Inr ids \<and>
         fst (snd (getMatchIds now now' up' puuid o2 region s')) = []"
proof -
  let ?k1 = "matchIdsCacheKey puuid o1 region"
  let ?c1 = "snd (cacheGet t0 matchIds ?k1 (cache s))"
  have k: "?k1 = matchIdsCacheKey puuid o2 region"
    using assms(1) by (rule matchIdsCacheKey_definedProperties)
  have c: "cache s' = cacheSet t1 matchIds ?k1 ids ?c1"
    using assms(3,4) by (rule getMatchIds_fetched)
  have "fst (cacheGet now matchIds ?k1 (cacheSet t1 matchIds ?k1 ids ?c1)) = Some ids"
    using assms(2,6) by (intro cacheGet_after_cacheSet) (simp_all add: cacheGet_keeps)
  then have "fst (cacheGet now matchIds (matchIdsCacheKey puuid o2 region) (cache s')) = Some ids"
    by (simp add: c k [symmetric])
  from getMatchIds_hit [OF this assms(5)] k show ?thesis
    by simp
qed

text \<open>
  Three options objects and an upstream that answers every request with two match ids.
\<close>

definition queueThenCount :: options where
  "queueThenCount = [(''queue'', Some (Num 420)), (''count'', Some (Num 10))]"

definition countThenQueue :: options where
  "countThenQueue = [(''count'', Some (Num 10)), (''queue'', Some (Num 420))]"

definition countQueueNoType :: options where
  "countQueueNoType = [(''type'', None), (''queue'', Some (Num 420)), (''count'', Some (Num 10))]"

definition idsPayload :: json where
  "idsPayload = JArray [JString ''EUW1_1'', JString ''EUW1_2'']"

definition someIds :: upstream where
  "someIds url i = Inr \<lparr>status = 200, responseText = Inr [], responseJson = Inr idsPayload\<rparr>"

theorem matchIds_key_witness:
  "definedProperties countQueueNoType = definedProperties queueThenCount \<and>
   countQueueNoType \<noteq> queueThenCount \<and>
   enabled (cache readyClient) \<and>
   fst (getMatchIds 0 50 someIds ''p1'' countQueueNoType euw1 readyClient) = Inr idsPayload \<and>
   fst (snd (getMatchIds 0 50 someIds ''p1'' countQueueNoType euw1 readyClient))
     = [WaitForRateLimit 0, Call 0] \<and>
   truthy idsPayload \<and>
   100 - 50 \<le> defaultTtl (caches (cache readyClient) matchIds) \<and>
   matchIdsCacheKey ''p1'' countQueueNoType euw1 = matchIdsCacheKey ''p1'' queueThenCount euw1 \<and>
   fst (getMatchIds 100 150 someIds ''p1'' queueThenCount euw1
          (snd (snd (getMatchIds 0 50 someIds ''p1'' countQueueNoType euw1 readyClient))))
     = Inr idsPayload \<and>
   fst (snd (getMatchIds 100 150 someIds ''p1'' queueThenCount euw1
          (snd (snd (getMatchIds 0 50 someIds ''p1'' countQueueNoType euw1 readyClient)))))
     = []"
proof -
  let ?first = "getMatchIds 0 50 someIds ''p1'' countQueueNoType euw1 readyClient"
  have h1: "definedProperties countQueueNoType = definedProperties queueThenCount"
    by (simp add: definedProperties_def countQueueNoType_def queueThenCount_def)
  have h1': "countQueueNoType \<noteq> queueThenCount"
    by (simp add: countQueueNoType_def queueThenCount_def)
  have h2: "enabled (cache readyClient)"
    by (simp add: readyClient_def initialCache_def)
  have a: "fst ?first = Inr idsPayload"
    by code_simp
  have b: "fst (snd ?first) = [WaitForRateLimit 0, Call 0]"
    by code_simp
  have h3: "?first = (Inr idsPayload, [WaitForRateLimit 0, Call 0], snd (snd ?first))"
    using a b by (metis prod.collapse)
  have h4: "[WaitForRateLimit 0, Call 0] \<noteq> []"
    by simp
  have h5: "truthy idsPayload"
    by (simp add: idsPayload_def)
  have h6: "100 - 50 \<le> defaultTtl (caches (cache readyClient) matchIds)"
    by (simp add: readyClient_def initialCache_def)
  show ?thesis
    using matchIds_key_follows_property_order [OF h1 h2 h3 h4 h5 h6, of 150 someIds]
      h1 h1' h2 a b h5 h6
    by simp
qed

text \<open>
  The claim as stated fails: \<^verbatim>\<open>{queue: 420, count: 10}\<close> and \<^verbatim>\<open>{count: 10, queue: 420}\<close>
  hold the same name-value pairs, yet their cache keys differ, and after the list was
  fetched and cached for the first object, the call with the second one goes to the
  upstream again.
\<close>

theorem matchIds_key_depends_on_order:
  "set queueThenCount = set countThenQueue \<and>
   distinct (map fst queueThenCount) \<and> distinct (map fst countThenQueue) \<and>
   matchIdsCacheKey ''p1'' queueThenCount euw1 \<noteq> matchIdsCacheKey ''p1'' countThenQueue euw1 \<and>
   fst (getMatchIds 0 50 someIds ''p1'' queueThenCount euw1 readyClient) = Inr idsPayload \<and>
   fst (snd (getMatchIds 100 150 someIds ''p1'' countThenQueue euw1
          (snd (snd (getMatchIds 0 50 someIds ''p1'' queueThenCount euw1 readyClient)))))
     = [WaitForRateLimit 0, Call 0]"
proof -
  have "set queueThenCount = set countThenQueue"
    by (auto simp: queueThenCount_def countThenQueue_def)
  moreover have "distinct (map fst queueThenCount)" "distinct (map fst countThenQueue)"
    by (simp_all add: queueThenCount_def countThenQueue_def)
  moreover have "matchIdsCacheKey ''p1'' queueThenCount euw1
                   \<noteq> matchIdsCacheKey ''p1'' countThenQueue euw1"
    by code_simp
  moreover have "fst (getMatchIds 0 50 someIds ''p1'' queueThenCount euw1 readyClient) = Inr idsPayload"
    by code_simp
  moreover have "fst (snd (getMatchIds 100 150 someIds ''p1'' countThenQueue euw1
          (snd (snd (getMatchIds 0 50 someIds ''p1'' queueThenCount euw1 readyClient)))))
     = [WaitForRateLimit 0, Call 0]"
    by code_simp
  ultimately show ?thesis by simp
qed

subsection \<open>Fetching several matches\<close>

text \<open>
  \<^verbatim>\<open>getMatches(matchIds, region)\<close>. The calls of \<^verbatim>\<open>getMatch\<close> within a batch run
  concurrently and share the cache and the limiter; whatever their interleaving, each call
  ends by resolving with a value or by throwing. \<open>fetchMatch i matchId\<close> is that outcome for
  the identifier at position \<open>i\<close> of \<^verbatim>\<open>matchIds\<close>; the value is what \<^verbatim>\<open>response.json()\<close>
  or the cache gave, which at run time may be \<^verbatim>\<open>null\<close>.
\<close>

definition batchSize :: nat where
  "batchSize = 10"

text \<open>
  The function mapped over a batch,
  \<^verbatim>\<open>async (matchId) => { try { return await getMatch(...) } catch { ...; return null } }\<close>,
  applied to the outcome of its \<^verbatim>\<open>getMatch\<close> call.
\<close>

definition tryGetMatch :: "jsError + json \<Rightarrow> jsError + json" where
  "tryGetMatch outcome = (case outcome of Inr match \<Rightarrow> Inr match | Inl error \<Rightarrow> Inr JNull)"

text \<open>
  \<^verbatim>\<open>Promise.all\<close>: the list of the values when every promise resolves, and a rejection as
  soon as one rejects (of several rejections, here the first in the order of the list).
\<close>

fun promiseAll :: "(jsError + 'a) list \<Rightarrow> jsError + 'a list" where
  "promiseAll [] = Inr []"
| "promiseAll (Inl error # rest) = Inl error"
| "promiseAll (Inr v # rest) =
     (case promiseAll rest of Inl error \<Rightarrow> Inl error | Inr vs \<Rightarrow> Inr (v # vs))"

text \<open>
  The \<^verbatim>\<open>for\<close> loop. Awaiting a rejected \<^verbatim>\<open>Promise.all\<close> would throw out of
  \<^verbatim>\<open>getMatches\<close>. Besides the result, the batches that were started are recorded, in
  order.
\<close>

function getMatchesLoop ::
  "(nat \<Rightarrow> string \<Rightarrow> jsError + json) \<Rightarrow> string list \<Rightarrow> nat \<Rightarrow> json list
     \<Rightarrow> (jsError + json list) \<times> string list list" where
  "getMatchesLoop fetchMatch ids i matches =
     (if i < length ids
      then (let batch = take batchSize (drop i ids)
            in case promiseAll (map (\<lambda>(j, matchId). tryGetMatch (fetchMatch (i + j) matchId))
                                  (enumerate 0 batch)) of
                 Inl error \<Rightarrow> (Inl error, [batch])
               | Inr batchResults \<Rightarrow>
                   (let r = getMatchesLoop fetchMatch ids (i + batchSize)
                              (matches @ filter (\<lambda>m. m \<noteq> JNull) batchResults)
                    in (fst r, batch # snd r)))
      else (Inr matches, []))"
  by pat_completeness auto
termination
  by (relation "measure (\<lambda>(fetchMatch, ids, i, matches). length ids - i)")
     (auto simp: batchSize_def)

declare getMatchesLoop.simps [simp del]

definition getMatches ::
  "(nat \<Rightarrow> string \<Rightarrow> jsError + json) \<Rightarrow> string list
     \<Rightarrow> (jsError + json list) \<times> string list list" where
  "getMatches fetchMatch ids = getMatchesLoop fetchMatch ids 0 []"


lemma promiseAll_tryGetMatch:
  "promiseAll (map tryGetMatch outcomes)
     = Inr (map (\<lambda>outcome. case outcome of Inr match \<Rightarrow> match | Inl error \<Rightarrow> JNull) outcomes)"
proof (induction outcomes)
  case Nil
  then show ?case by simp
next
  case (Cons outcome outcomes)
  then show ?case
    by (cases outcome) (simp_all add: tryGetMatch_def)
qed

lemma filter_caught:
  "filter (\<lambda>m. m \<noteq> JNull)
     (map (\<lambda>outcome. case outcome of Inr match \<Rightarrow> match | Inl error \<Rightarrow> JNull) outcomes)
   = [m. Inr m \<leftarrow> outcomes, m \<noteq> JNull]"
proof (induction outcomes)
  case Nil
  then show ?case by simp
next
  case (Cons outcome outcomes)
  then show ?case
    by (cases outcome) simp_all
qed

lemma batch_positions:
  "map (\<lambda>(j, matchId). g (i + j) matchId) (enumerate 0 (take b (drop i ids)))
     = map (\<lambda>k. g k (ids ! k)) [i..<min (i + b) (length ids)]"
proof (rule nth_equalityI)
  show "length (map (\<lambda>(j, matchId). g (i + j) matchId) (enumerate 0 (take b (drop i ids))))
          = length (map (\<lambda>k. g k (ids ! k)) [i..<min (i + b) (length ids)])"
    by auto
next
  fix n
  assume "n < length (map (\<lambda>(j, matchId). g (i + j) matchId) (enumerate 0 (take b (drop i ids))))"
  then have n: "n < b" "i + n < length ids" "i + n < min (i + b) (length ids)"
    by auto
  then show "map (\<lambda>(j, matchId). g (i + j) matchId) (enumerate 0 (take b (drop i ids))) ! n
               = map (\<lambda>k. g k (ids ! k)) [i..<min (i + b) (length ids)] ! n"
    by (simp add: nth_enumerate_eq)
qed

lemma upt_batch:
  "i \<le> length ids \<Longrightarrow>
   [i..<length ids] = [i..<min (i + b) (length ids)] @ [i + b..<length ids]"
proof (cases "i + b \<le> length ids")
  case True
  then show ?thesis
    using upt_add_eq_append [of i "i + b" "length ids - (i + b)"] by (simp add: min_def)
next
  case False
  then show ?thesis by (simp add: min_def)
qed

lemma getMatchesLoop_result:
  "fst (getMatchesLoop fetchMatch ids i matches)
     = Inr (matches @ [m. Inr m \<leftarrow> map (\<lambda>k. fetchMatch k (ids ! k)) [i..<length ids], m \<noteq> JNull])"
proof (induction fetchMatch ids i matches rule: getMatchesLoop.induct)
  case (1 fetchMatch ids i matches)
  show ?case
  proof (cases "i < length ids")
    case False
    then show ?thesis
      by (simp add: getMatchesLoop.simps [of fetchMatch ids i])
  next
    case True
    define batch where "batch = take batchSize (drop i ids)"
    define outcomes where
      "outcomes = map (\<lambda>k. fetchMatch k (ids ! k)) [i..<min (i + batchSize) (length ids)]"
    define batchResults where
      "batchResults = map (\<lambda>outcome. case outcome of Inr match \<Rightarrow> match | Inl error \<Rightarrow> JNull) outcomes"
    have calls: "map (\<lambda>(j, matchId). tryGetMatch (fetchMatch (i + j) matchId)) (enumerate 0 batch)
                   = map tryGetMatch outcomes"
      unfolding batch_def outcomes_def
      using batch_positions [of "\<lambda>k matchId. tryGetMatch (fetchMatch k matchId)" i batchSize ids]
      by (simp add: o_def)
    have pa: "promiseAll (map (\<lambda>(j, matchId). tryGetMatch (fetchMatch (i + j) matchId))
                            (enumerate 0 batch)) = Inr batchResults"
      unfolding calls batchResults_def by (rule promiseAll_tryGetMatch)
    define kept where "kept = filter (\<lambda>m. m \<noteq> JNull) batchResults"
    define later where
      "later = [m. Inr m \<leftarrow> map (\<lambda>k. fetchMatch k (ids ! k)) [i + batchSize..<length ids], m \<noteq> JNull]"
    have ih: "fst (getMatchesLoop fetchMatch ids (i + batchSize) (matches @ kept))
              = Inr ((matches @ kept) @ later)"
      using "1.IH" [OF True batch_def pa] unfolding kept_def later_def .
    have kept_eq: "kept = [m. Inr m \<leftarrow> outcomes, m \<noteq> JNull]"
      unfolding kept_def batchResults_def by (rule filter_caught)
    have "fst (getMatchesLoop fetchMatch ids i matches)
            = fst (getMatchesLoop fetchMatch ids (i + batchSize) (matches @ kept))"
      using True pa
      by (simp add: getMatchesLoop.simps [of fetchMatch ids i] Let_def batch_def [symmetric]
          kept_def [symmetric])
    also have "\<dots> = Inr (matches @ kept @ later)"
      by (simp only: ih append_assoc)
    also have "\<dots> = Inr (matches @ [m. Inr m \<leftarrow> outcomes, m \<noteq> JNull]
                      @ [m. Inr m \<leftarrow> map (\<lambda>k. fetchMatch k (ids ! k)) [i + batchSize..<length ids],
                            m \<noteq> JNull])"
      by (simp only: kept_eq later_def)
    also have "\<dots> = Inr (matches @ [m. Inr m \<leftarrow> map (\<lambda>k. fetchMatch k (ids ! k)) [i..<length ids],
                                    m \<noteq> JNull])"
      using upt_batch [of i ids batchSize] True by (simp add: outcomes_def)
    finally show ?thesis .
  qed
qed

lemma getMatchesLoop_batches:
  "concat (snd (getMatchesLoop fetchMatch ids i matches)) = drop i ids \<and>
   (\<forall>b \<in> set (snd (getMatchesLoop fetchMatch ids i matches)). 0 < length b \<and> length b \<le> 10) \<and>
   (\<forall>b \<in> set (butlast (snd (getMatchesLoop fetchMatch ids i matches))). length b = 10) \<and>
   (snd (getMatchesLoop fetchMatch ids i matches) = [] \<longleftrightarrow> length ids \<le> i)"
proof (induction fetchMatch ids i matches rule: getMatchesLoop.induct)
  case (1 fetchMatch ids i matches)
  show ?case
  proof (cases "i < length ids")
    case False
    then show ?thesis
      by (simp add: getMatchesLoop.simps [of fetchMatch ids i])
  next
    case True
    define batch where "batch = take batchSize (drop i ids)"
    define outcomes where
      "outcomes = map (\<lambda>k. fetchMatch k (ids ! k)) [i..<min (i + batchSize) (length ids)]"
    define batchResults where
      "batchResults = map (\<lambda>outcome. case outcome of Inr match \<Rightarrow> match | Inl error \<Rightarrow> JNull) outcomes"
    define rest where "rest = snd (getMatchesLoop fetchMatch ids (i + batchSize)
                                     (matches @ filter (\<lambda>m. m \<noteq> JNull) batchResults))"
    have calls: "map (\<lambda>(j, matchId). tryGetMatch (fetchMatch (i + j) matchId)) (enumerate 0 batch)
                   = map tryGetMatch outcomes"
      unfolding batch_def outcomes_def
      using batch_positions [of "\<lambda>k matchId. tryGetMatch (fetchMatch k matchId)" i batchSize ids]
      by (simp add: o_def)
    have pa: "promiseAll (map (\<lambda>(j, matchId). tryGetMatch (fetchMatch (i + j) matchId))
                            (enumerate 0 batch)) = Inr batchResults"
      unfolding calls batchResults_def by (rule promiseAll_tryGetMatch)
    have ih: "concat rest = drop (i + batchSize) ids"
      "\<forall>b \<in> set rest. 0 < length b \<and> length b \<le> 10"
      "\<forall>b \<in> set (butlast rest). length b = 10"
      "rest = [] \<longleftrightarrow> length ids \<le> i + batchSize"
      using "1.IH" [OF True batch_def pa] unfolding rest_def by blast+
    have unfold: "snd (getMatchesLoop fetchMatch ids i matches) = batch # rest"
      using True pa
      by (simp add: getMatchesLoop.simps [of fetchMatch ids i] Let_def batch_def [symmetric] rest_def)
    have lb: "length batch = min 10 (length ids - i)"
      by (simp add: batch_def batchSize_def)
    have "concat (batch # rest) = drop i ids"
      using ih(1) by (simp add: batch_def drop_drop add.commute [of batchSize i]
          del: append_take_drop_id)
          (metis append_take_drop_id drop_drop add.commute)
    moreover have "\<forall>b \<in> set (batch # rest). 0 < length b \<and> length b \<le> 10"
      using ih(2) lb True by auto
    moreover have "\<forall>b \<in> set (butlast (batch # rest)). length b = 10"
      using ih(3,4) lb by (auto simp: batchSize_def)
    ultimately show ?thesis
      using True by (simp add: unfold)
  qed
qed


lemma length_successes:
  "length [m. Inr m \<leftarrow> outcomes, m \<noteq> JNull] \<le> length (outcomes :: (jsError + json) list)"
proof (induction outcomes)
  case Nil
  then show ?case by simp
next
  case (Cons outcome outcomes)
  then show ?case
    by (cases outcome) simp_all
qed

lemma successes_all_matches:
  "\<forall>outcome \<in> set outcomes. outcome \<noteq> Inr JNull \<Longrightarrow>
   [m. Inr m \<leftarrow> outcomes, m \<noteq> JNull] = [m. Inr m \<leftarrow> (outcomes :: (jsError + json) list)]"
proof (induction outcomes)
  case Nil
  then show ?case by simp
next
  case (Cons outcome outcomes)
  then show ?case
    by (cases outcome) auto
qed

text \<open>
  Claim C7. Whatever the outcomes of the individual \<^verbatim>\<open>getMatch\<close> calls, \<^verbatim>\<open>getMatches\<close>
  does not throw: it returns a list. The list holds, in the order of the identifiers, the
  value of every call that resolved with a match; a call that threw is skipped, and so is
  one that resolved with \<^verbatim>\<open>null\<close>, which is no match. When no call resolves with
  \<^verbatim>\<open>null\<close>, as the type \<^verbatim>\<open>Match\<close> promises, the list is exactly the values of the calls
  that succeeded. It is no longer than the list of identifiers. The identifiers are
  fetched in consecutive batches of 10, the last batch holding the remainder.
\<close>

theorem getMatches_skips_failures:
  "fst (getMatches fetchMatch ids)
     = Inr [m. Inr m \<leftarrow> map (\<lambda>i. fetchMatch i (ids ! i)) [0..<length ids], m \<noteq> JNull] \<and>
   length [m. Inr m \<leftarrow> map (\<lambda>i. fetchMatch i (ids ! i)) [0..<length ids], m \<noteq> JNull]
     \<le> length ids \<and>
   ((\<forall>i < length ids. fetchMatch i (ids ! i) \<noteq> Inr JNull)
      \<longrightarrow> fst (getMatches fetchMatch ids)
            = Inr [m. Inr m \<leftarrow> map (\<lambda>i. fetchMatch i (ids ! i)) [0..<length ids]]) \<and>
   concat (snd (getMatches fetchMatch ids)) = ids \<and>
   (\<forall>b \<in> set (snd (getMatches fetchMatch ids)). 0 < length b \<and> length b \<le> 10) \<and>
   (\<forall>b \<in> set (butlast (snd (getMatches fetchMatch ids))). length b = 10)"
proof -
  let ?outcomes = "map (\<lambda>i. fetchMatch i (ids ! i)) [0..<length ids]"
  have r: "fst (getMatches fetchMatch ids) = Inr [m. Inr m \<leftarrow> ?outcomes, m \<noteq> JNull]"
    using getMatchesLoop_result [of fetchMatch ids 0 "[]"] by (simp only: getMatches_def append_Nil)
  have l: "length [m. Inr m \<leftarrow> ?outcomes, m \<noteq> JNull] \<le> length ids"
    using length_successes [of ?outcomes] by simp
  have t: "(\<forall>i < length ids. fetchMatch i (ids ! i) \<noteq> Inr JNull)
             \<longrightarrow> fst (getMatches fetchMatch ids) = Inr [m. Inr m \<leftarrow> ?outcomes]"
  proof
    assume "\<forall>i < length ids. fetchMatch i (ids ! i) \<noteq> Inr JNull"
    then have "\<forall>outcome \<in> set ?outcomes. outcome \<noteq> Inr JNull"
      by auto
    from successes_all_matches [OF this] show "fst (getMatches fetchMatch ids) = Inr [m. Inr m \<leftarrow> ?outcomes]"
      by (simp only: r)
  qed
  have b: "concat (snd (getMatches fetchMatch ids)) = ids"
    "\<forall>b \<in> set (snd (getMatches fetchMatch ids)). 0 < length b \<and> length b \<le> 10"
    "\<forall>b \<in> set (butlast (snd (getMatches fetchMatch ids))). length b = 10"
    using getMatchesLoop_batches [of fetchMatch ids 0 "[]"] by (simp_all add: getMatches_def)
  from r l t b show ?thesis
    by blast
qed

text \<open>
  Twenty-three identifiers, three batches. The request for position 3 is answered with
  404, the \<^verbatim>\<open>fetch\<close> for position 11 throws, and the response for position 15 is the JSON
  value \<^verbatim>\<open>null\<close>; every other request succeeds.
\<close>

definition manyIds :: "string list" where
  "manyIds = map (\<lambda>i. ''EUW1_'' @ showNat i) [0..<23]"

definition matchPayload :: "nat \<Rightarrow> json" where
  "matchPayload i = JObject [(''url'', JString (matchUrl (''EUW1_'' @ showNat i) euw1))]"

definition flakyMatches :: upstream where
  "flakyMatches url i =
     (if url = matchUrl ''EUW1_3'' euw1 then Inr notFoundResponse
      else if url = matchUrl ''EUW1_11'' euw1 then Inl (Error ''fetch failed'')
      else if url = matchUrl ''EUW1_15'' euw1
      then Inr \<lparr>status = 200, responseText = Inr ''null'', responseJson = Inr JNull\<rparr>
      else Inr \<lparr>status = 200, responseText = Inr [],
                responseJson = Inr (JObject [(''url'', JString url)])\<rparr>)"

definition fetchOne :: "nat \<Rightarrow> string \<Rightarrow> jsError + json" where
  "fetchOne i matchId = fst (getMatch 0 50 flakyMatches matchId euw1 readyClient)"

theorem getMatches_witness:
  "length manyIds = 23 \<and>
   fetchOne 3 (manyIds ! 3) = Inl (Error ''Resource not found'') \<and>
   fetchOne 11 (manyIds ! 11) = Inl (Error ''fetch failed'') \<and>
   fetchOne 15 (manyIds ! 15) = Inr JNull \<and>
   fetchOne 22 (manyIds ! 22) = Inr (matchPayload 22) \<and>
   fst (getMatches fetchOne manyIds)
     = Inr (map matchPayload
              [0, 1, 2, 4, 5, 6, 7, 8, 9, 10, 12, 13, 14, 16, 17, 18, 19, 20, 21, 22]) \<and>
   concat (snd (getMatches fetchOne manyIds)) = manyIds \<and>
   map length (snd (getMatches fetchOne manyIds)) = [10, 10, 3]"
proof -
  have a: "length manyIds = 23"
    by (simp add: manyIds_def)
  have b: "fetchOne 3 (manyIds ! 3) = Inl (Error ''Resource not found'')"
    "fetchOne 11 (manyIds ! 11) = Inl (Error ''fetch failed'')"
    "fetchOne 15 (manyIds ! 15) = Inr JNull"
    "fetchOne 22 (manyIds ! 22) = Inr (matchPayload 22)"
    by code_simp+
  have c: "[m. Inr m \<leftarrow> map (\<lambda>i. fetchOne i (manyIds ! i)) [0..<length manyIds], m \<noteq> JNull]
             = map matchPayload
                 [0, 1, 2, 4, 5, 6, 7, 8, 9, 10, 12, 13, 14, 16, 17, 18, 19, 20, 21, 22]"
    by code_simp
  have d: "map length (snd (getMatches fetchOne manyIds)) = [10, 10, 3]"
    by code_simp
  show ?thesis
    using getMatches_skips_failures [of fetchOne manyIds] a b c d by simp
qed

end
